theory Spec2Isabelle
  imports Main "HOL-Library.Word" "HOL-Library.Char_ord" "HOL-Library.List_Lexorder"
    "HOL-Library.Multiset"
begin

unbundle bit_operations_syntax

section \<open>The license admission store (internal/store/bbolt_store.go)\<close>

text \<open>
  A shallow embedding of the bbolt-backed license store. Go strings are byte sequences
  and \<open>len\<close> counts bytes, so a Go string is a \<open>string\<close> (a list of 8-bit
  \<open>char\<close>s) and \<open>length\<close> is Go's \<open>len\<close>. A \<open>time.Time\<close> is an instant on the
  time line, an \<open>int\<close> counted from the zero value \<open>time.Time{}\<close>; \<open>After\<close> is
  \<open>>\<close>. Go's \<open>int\<close> is a 64-bit two's complement integer: the counter that the code
  increments (\<open>SeenCount\<close>) is a \<open>64 word\<close> read by \<open>sint\<close>, the integers that are only compared or
  obtained by counting the keys of a bucket (\<open>Limit\<close>, \<open>Used\<close>) are \<open>int\<close>.
\<close>

type_synonym time = int

subsection \<open>Data model (package store, types)\<close>

record License =
  Key :: string
  Limit :: int
  Note :: string
  Enabled :: bool
  CreatedAt :: time

record ServerBinding =
  ServerID :: string
  FirstSeen :: time
  LastSeen :: time
  SeenCount :: "64 word"

record LicenseInfo =
  License :: License
  Used :: int
  Bindings :: "ServerBinding list"

record ActivateResult =
  OK :: bool
  Reason :: string
  Used :: int
  Limit :: int
  NewlyBound :: bool

text \<open>
  The zero values \<open>License{}\<close>, \<open>LicenseInfo{}\<close> and \<open>ActivateResult{}\<close> that the
  operations return beside an error.
\<close>

definition License_zero :: License where
  "License_zero = \<lparr>Key = [], License.Limit = 0, Note = [], Enabled = False, CreatedAt = 0\<rparr>"

definition LicenseInfo_zero :: LicenseInfo where
  "LicenseInfo_zero = \<lparr>License = License_zero, LicenseInfo.Used = 0, Bindings = []\<rparr>"

definition ActivateResult_zero :: ActivateResult where
  "ActivateResult_zero = \<lparr>OK = False, Reason = [], Used = 0, Limit = 0, NewlyBound = False\<rparr>"

text \<open>
  The errors of the store: the two \<open>fmt.Errorf\<close> values of \<open>CreateLicense\<close> and
  \<open>SetLimit\<close>, the package's \<open>errNotFound\<close>, a failure of \<open>crypto/rand\<close> in the key
  generator, and the errors of bbolt's \<open>Put\<close> and \<open>CreateBucketIfNotExists\<close>.
\<close>

datatype error =
    LimitMustBePositive
  | KeyCollision
  | errNotFound
  | RandReadFailed
  | ErrKeyRequired
  | ErrKeyTooLarge
  | ErrBucketNameRequired

text \<open>The classes by which the specification names these errors.\<close>

datatype error_class = InvalidArgument | Conflict | NotFound | Internal

fun class_of :: "error \<Rightarrow> error_class" where
  "class_of LimitMustBePositive = InvalidArgument"
| "class_of KeyCollision = Conflict"
| "class_of errNotFound = NotFound"
| "class_of RandReadFailed = Internal"
| "class_of ErrKeyRequired = Internal"
| "class_of ErrKeyTooLarge = Internal"
| "class_of ErrBucketNameRequired = Internal"

subsection \<open>strings.TrimSpace\<close>

text \<open>
  \<open>strings.TrimSpace\<close> removes leading and trailing white space "as defined by
  Unicode" from a UTF-8 byte string. A rune is white space (\<open>unicode.IsSpace\<close>) when it
  is one of U+0009..U+000D, U+0020, U+0085, U+00A0, U+1680, U+2000..U+200A, U+2028,
  U+2029, U+202F, U+205F, U+3000. Decoding yields such a rune exactly when the bytes
  are its (shortest) UTF-8 encoding; every other byte sequence, an invalid one
  included, decodes to a rune that is not white space. So trimming removes these
  encodings from the front, then from the back.
\<close>

definition spaceEncodings :: "string list" where
  "spaceEncodings =
    [[CHR 0x09], [CHR 0x0A], [CHR 0x0B], [CHR 0x0C], [CHR 0x0D], [CHR 0x20],
     [CHR 0xC2, CHR 0x85], [CHR 0xC2, CHR 0xA0],
     [CHR 0xE1, CHR 0x9A, CHR 0x80],
     [CHR 0xE2, CHR 0x80, CHR 0x80], [CHR 0xE2, CHR 0x80, CHR 0x81],
     [CHR 0xE2, CHR 0x80, CHR 0x82], [CHR 0xE2, CHR 0x80, CHR 0x83],
     [CHR 0xE2, CHR 0x80, CHR 0x84], [CHR 0xE2, CHR 0x80, CHR 0x85],
     [CHR 0xE2, CHR 0x80, CHR 0x86], [CHR 0xE2, CHR 0x80, CHR 0x87],
     [CHR 0xE2, CHR 0x80, CHR 0x88], [CHR 0xE2, CHR 0x80, CHR 0x89],
     [CHR 0xE2, CHR 0x80, CHR 0x8A],
     [CHR 0xE2, CHR 0x80, CHR 0xA8], [CHR 0xE2, CHR 0x80, CHR 0xA9],
     [CHR 0xE2, CHR 0x80, CHR 0xAF],
     [CHR 0xE2, CHR 0x81, CHR 0x9F],
     [CHR 0xE3, CHR 0x80, CHR 0x80]]"

text \<open>The width in bytes of the white space rune a string starts with; 0 if none.\<close>

definition leadingSpace :: "string \<Rightarrow> nat" where
  "leadingSpace s =
    (case find (\<lambda>e. take (length e) s = e) spaceEncodings of
       None \<Rightarrow> 0 | Some e \<Rightarrow> length e)"

text \<open>The width in bytes of the white space rune a string ends with; 0 if none.\<close>

definition trailingSpace :: "string \<Rightarrow> nat" where
  "trailingSpace s =
    (case find (\<lambda>e. drop (length s - length e) s = e) spaceEncodings of
       None \<Rightarrow> 0 | Some e \<Rightarrow> length e)"

lemma leadingSpace_le: "leadingSpace s \<le> length s"
proof (cases "find (\<lambda>e. take (length e) s = e) spaceEncodings")
  case None
  then show ?thesis by (simp add: leadingSpace_def)
next
  case (Some e)
  then have "take (length e) s = e" by (auto simp: find_Some_iff)
  then have "length (take (length e) s) = length e" by simp
  then have "length e \<le> length s" by simp
  with Some show ?thesis by (simp add: leadingSpace_def)
qed

lemma trailingSpace_le: "trailingSpace s \<le> length s"
proof (cases "find (\<lambda>e. drop (length s - length e) s = e) spaceEncodings")
  case None
  then show ?thesis by (simp add: trailingSpace_def)
next
  case (Some e)
  then have "drop (length s - length e) s = e" by (auto simp: find_Some_iff)
  then have "length (drop (length s - length e) s) = length e" by simp
  then have "length e \<le> length s" by simp
  with Some show ?thesis by (simp add: trailingSpace_def)
qed

function TrimLeft :: "string \<Rightarrow> string" where
  "TrimLeft s = (if leadingSpace s = 0 then s else TrimLeft (drop (leadingSpace s) s))"
  by pat_completeness auto
termination
proof (relation "measure length")
  show "wf (measure length)" by simp
next
  fix s :: string
  assume "leadingSpace s \<noteq> 0"
  moreover have "leadingSpace s \<le> length s" by (rule leadingSpace_le)
  ultimately show "(drop (leadingSpace s) s, s) \<in> measure length" by simp
qed

function TrimRight :: "string \<Rightarrow> string" where
  "TrimRight s =
    (if trailingSpace s = 0 then s else TrimRight (take (length s - trailingSpace s) s))"
  by pat_completeness auto
termination
proof (relation "measure length")
  show "wf (measure length)" by simp
next
  fix s :: string
  assume "trailingSpace s \<noteq> 0"
  moreover have "trailingSpace s \<le> length s" by (rule trailingSpace_le)
  ultimately show "(take (length s - trailingSpace s) s, s) \<in> measure length" by simp
qed

declare TrimLeft.simps [simp del] TrimRight.simps [simp del]

definition TrimSpace :: "string \<Rightarrow> string" where
  "TrimSpace s = TrimRight (TrimLeft s)"

subsection \<open>bbolt buckets\<close>

text \<open>
  A bbolt bucket is a B+tree of key/value pairs ordered by the bytes of the key
  (\<open>bytes.Compare\<close>, the lexicographic order of \<open>char list\<close>); \<open>ForEach\<close> visits the
  pairs in that order. A bucket is the list of its pairs in key order. The values are
  the JSON documents of the records; \<open>json.Marshal\<close> followed by \<open>json.Unmarshal\<close>
  is taken to give the record back, so a bucket holds the records themselves. A
  transaction is taken to begin and to commit without an I/O failure.
\<close>

type_synonym 'v bucket = "(string \<times> 'v) list"

definition MaxKeySize :: nat where
  "MaxKeySize = 32768"

definition Bucket_Get :: "'v bucket \<Rightarrow> string \<Rightarrow> 'v option" where
  "Bucket_Get b k = map_of b k"

text \<open>The B+tree insertion: replaces the value of a key that is there, keeps key order.\<close>

fun bucket_insert :: "string \<Rightarrow> 'v \<Rightarrow> 'v bucket \<Rightarrow> 'v bucket" where
  "bucket_insert k v [] = [(k, v)]"
| "bucket_insert k v ((k', v') # b) =
     (if k = k' then (k, v) # b
      else if k < k' then (k, v) # (k', v') # b
      else (k', v') # bucket_insert k v b)"

definition Bucket_Put :: "'v bucket \<Rightarrow> string \<Rightarrow> 'v \<Rightarrow> error + 'v bucket" where
  "Bucket_Put b k v =
     (if k = [] then Inl ErrKeyRequired
      else if length k > MaxKeySize then Inl ErrKeyTooLarge
      else Inr (bucket_insert k v b))"

text \<open>
  \<open>CreateBucketIfNotExists\<close> on a bucket of nested buckets: the nested bucket of that
  name and the parent, with an empty nested bucket added when there was none.
\<close>

definition CreateBucketIfNotExists ::
  "'v bucket bucket \<Rightarrow> string \<Rightarrow> error + ('v bucket \<times> 'v bucket bucket)" where
  "CreateBucketIfNotExists root k =
     (if k = [] then Inl ErrBucketNameRequired
      else case Bucket_Get root k of
             Some b \<Rightarrow> Inr (b, root)
           | None \<Rightarrow> Inr ([], bucket_insert k [] root))"

definition ForEach :: "'v bucket \<Rightarrow> (string \<Rightarrow> 'v \<Rightarrow> 'a \<Rightarrow> 'a) \<Rightarrow> 'a \<Rightarrow> 'a" where
  "ForEach b f acc = fold (\<lambda>(k, v). f k v) b acc"

definition countKeys :: "'v bucket \<Rightarrow> int" where
  "countKeys b = ForEach b (\<lambda>_ _ n. n + 1) 0"

subsection \<open>The store\<close>

text \<open>
  The two top-level buckets: \<open>licenses\<close> maps a license key to its record, \<open>usage\<close> maps
  a license key to the nested bucket of its bindings, keyed by device identifier.
\<close>

record store =
  licenses :: "License bucket"
  usage :: "ServerBinding bucket bucket"

text \<open>\<open>OpenBBolt\<close> on a new file: both buckets are created empty.\<close>

definition OpenBBolt :: store where
  "OpenBBolt = \<lparr>licenses = [], usage = []\<rparr>"

definition getLicense :: "store \<Rightarrow> string \<Rightarrow> error + License" where
  "getLicense s key =
     (case Bucket_Get (licenses s) key of
        None \<Rightarrow> Inl errNotFound
      | Some lic \<Rightarrow> Inr lic)"

definition putLicense :: "store \<Rightarrow> License \<Rightarrow> error + store" where
  "putLicense s lic =
     (case Bucket_Put (licenses s) (Key lic) lic of
        Inl err \<Rightarrow> Inl err
      | Inr b \<Rightarrow> Inr (s\<lparr>licenses := b\<rparr>))"

subsection \<open>Activate\<close>

text \<open>
  The body of the transaction once the binding \<open>sb\<close> to write is known: \<open>usage.Put\<close>,
  the count after the write, the verdict. \<open>u\<close> is the license's nested bucket and
  \<open>root\<close> the \<open>usage\<close> bucket that holds it.
\<close>

definition Activate_put ::
  "store \<Rightarrow> License \<Rightarrow> string \<Rightarrow> string \<Rightarrow> ServerBinding bucket bucket \<Rightarrow>
   ServerBinding bucket \<Rightarrow> ServerBinding \<Rightarrow> bool \<Rightarrow> error + (ActivateResult \<times> store)" where
  "Activate_put s lic key serverID root u sb newBinding =
     (case Bucket_Put u serverID sb of
        Inl err \<Rightarrow> Inl err
      | Inr u' \<Rightarrow>
          Inr (\<lparr>OK = True, Reason = ''ok'', Used = countKeys u',
                Limit = License.Limit lic, NewlyBound = newBinding\<rparr>,
               s\<lparr>usage := bucket_insert key u' root\<rparr>))"

text \<open>
  The closure that \<open>Activate\<close> runs in \<open>db.Update\<close>: \<open>Inl\<close> is the error it returns
  (the transaction is rolled back), \<open>Inr\<close> the verdict \<open>res\<close> and the state it commits.
\<close>

definition Activate_tx ::
  "time \<Rightarrow> string \<Rightarrow> string \<Rightarrow> store \<Rightarrow> error + (ActivateResult \<times> store)" where
  "Activate_tx now key serverID s =
     (case getLicense s key of
        Inl err \<Rightarrow>
          Inr (\<lparr>OK = False, Reason = ''not_found'', Used = 0, Limit = 0,
                NewlyBound = False\<rparr>, s)
      | Inr lic \<Rightarrow>
          if \<not> Enabled lic then
            Inr (\<lparr>OK = False, Reason = ''disabled'', Used = 0,
                  Limit = License.Limit lic, NewlyBound = False\<rparr>, s)
          else
            (case (case Bucket_Get (usage s) key of
                     Some u \<Rightarrow> Inr (u, usage s)
                   | None \<Rightarrow> CreateBucketIfNotExists (usage s) key) of
               Inl err \<Rightarrow> Inl err
             | Inr (u, root) \<Rightarrow>
                 (case Bucket_Get u serverID of
                    Some existing \<Rightarrow>
                      Activate_put s lic key serverID root u
                        (existing\<lparr>LastSeen := now, SeenCount := SeenCount existing + 1\<rparr>)
                        False
                  | None \<Rightarrow>
                      if countKeys u \<ge> License.Limit lic then
                        Inr (\<lparr>OK = False, Reason = ''limit_reached'', Used = countKeys u,
                              Limit = License.Limit lic, NewlyBound = False\<rparr>,
                             s\<lparr>usage := root\<rparr>)
                      else
                        Activate_put s lic key serverID root u
                          \<lparr>ServerID = serverID, FirstSeen = now, LastSeen = now,
                           SeenCount = 1\<rparr>
                          True)))"

text \<open>
  \<open>Activate\<close> at the state \<open>s\<close> of the database, with \<open>now\<close> the reading of
  \<open>time.Now().UTC()\<close>: the pair that the Go function returns, and the state after it.
\<close>

definition Activate ::
  "store \<Rightarrow> time \<Rightarrow> string \<Rightarrow> string \<Rightarrow> (ActivateResult \<times> error option) \<times> store" where
  "Activate s now key0 serverID0 =
     (let key = TrimSpace key0; serverID = TrimSpace serverID0 in
      if key = [] \<or> serverID = [] then
        ((\<lparr>OK = False, Reason = ''invalid_request'', Used = 0, Limit = 0,
           NewlyBound = False\<rparr>, None), s)
      else if length serverID > 128 then
        ((\<lparr>OK = False, Reason = ''server_id_too_long'', Used = 0, Limit = 0,
           NewlyBound = False\<rparr>, None), s)
      else
        (case Activate_tx now key serverID s of
           Inl err \<Rightarrow> ((ActivateResult_zero, Some err), s)
         | Inr (res, s') \<Rightarrow> ((res, None), s')))"

subsection \<open>The key generator (package license)\<close>

text \<open>
  \<open>crypto/rand.Read\<close> is the source of randomness: \<open>None\<close> when it fails, \<open>Some f\<close>
  when it fills the buffer, with \<open>f i\<close> the byte it writes at index \<open>i\<close>.
\<close>

definition rand_Read :: "(nat \<Rightarrow> 8 word) option \<Rightarrow> nat \<Rightarrow> error + 8 word list" where
  "rand_Read rnd n =
     (case rnd of None \<Rightarrow> Inl RandReadFailed | Some f \<Rightarrow> Inr (map f [0..<n]))"

definition encodeStd :: string where
  "encodeStd = ''ABCDEFGHIJKLMNOPQRSTUVWXYZ234567''"

text \<open>
  Base32 (RFC 4648) of one group of five bytes: eight digits of five bits each, the
  bits taken from the bytes as \<open>encoding/base32\<close> does.
\<close>

fun base32_digits :: "8 word list \<Rightarrow> 8 word list" where
  "base32_digits [b0, b1, b2, b3, b4] =
     [drop_bit 3 b0,
      (push_bit 2 b0 AND 0x1F) OR drop_bit 6 b1,
      drop_bit 1 b1 AND 0x1F,
      (push_bit 4 b1 AND 0x1F) OR drop_bit 4 b2,
      (push_bit 1 b2 AND 0x1F) OR drop_bit 7 b3,
      drop_bit 2 b3 AND 0x1F,
      (push_bit 3 b3 AND 0x1F) OR drop_bit 5 b4,
      b4 AND 0x1F]"
| "base32_digits bs = []"

definition base32_group :: "8 word list \<Rightarrow> string" where
  "base32_group bs = map (\<lambda>d. encodeStd ! unat d) (base32_digits bs)"

text \<open>
  \<open>base32.StdEncoding.WithPadding(base32.NoPadding).EncodeToString\<close>: a last group of
  fewer than five bytes is filled with zero bits and gives only the digits that hold
  input bits.
\<close>

function EncodeToString :: "8 word list \<Rightarrow> string" where
  "EncodeToString bs =
     (if bs = [] then []
      else if 5 \<le> length bs then base32_group (take 5 bs) @ EncodeToString (drop 5 bs)
      else take ((length bs * 8 + 4) div 5)
             (base32_group (bs @ replicate (5 - length bs) 0)))"
  by pat_completeness auto
termination
  by (relation "measure length") auto

declare EncodeToString.simps [simp del]

text \<open>\<open>strings.ToUpper\<close> on ASCII bytes, which is all that base32 produces.\<close>

definition ToUpper :: "string \<Rightarrow> string" where
  "ToUpper s =
     map (\<lambda>c. if CHR ''a'' \<le> c \<and> c \<le> CHR ''z'' then char_of (of_char c - (32::nat)) else c) s"

text \<open>The loop of \<open>NewKey\<close> that cuts the string into parts of four bytes.\<close>

function parts_of :: "string \<Rightarrow> string list" where
  "parts_of s = (if s = [] then [] else take 4 s # parts_of (drop 4 s))"
  by pat_completeness auto
termination
  by (relation "measure length") auto

declare parts_of.simps [simp del]

fun Join :: "string list \<Rightarrow> string \<Rightarrow> string" where
  "Join [] sep = []"
| "Join [p] sep = p"
| "Join (p # q # ps) sep = p @ sep @ Join (q # ps) sep"

definition NewKey :: "(nat \<Rightarrow> 8 word) option \<Rightarrow> error + string" where
  "NewKey rnd =
     (case rand_Read rnd 20 of
        Inl err \<Rightarrow> Inl err
      | Inr b \<Rightarrow> Inr (''KYPAQET-'' @ Join (parts_of (ToUpper (EncodeToString b))) ''-''))"

subsection \<open>License Registry\<close>

text \<open>
  Each operation takes the state of the database and returns the pair that the Go
  function returns (the value, and the error or \<open>None\<close> for \<open>nil\<close>) with the state
  after it. A closure of \<open>db.Update\<close> that returns an error commits nothing.
\<close>

definition CreateLicense_tx :: "License \<Rightarrow> store \<Rightarrow> error + store" where
  "CreateLicense_tx lic s =
     (if Bucket_Get (licenses s) (Key lic) \<noteq> None then Inl KeyCollision
      else case Bucket_Put (licenses s) (Key lic) lic of
             Inl err \<Rightarrow> Inl err
           | Inr b \<Rightarrow>
               (case CreateBucketIfNotExists (usage s) (Key lic) of
                  Inl err \<Rightarrow> Inl err
                | Inr (_, root) \<Rightarrow> Inr (s\<lparr>licenses := b, usage := root\<rparr>)))"

definition CreateLicense ::
  "store \<Rightarrow> (nat \<Rightarrow> 8 word) option \<Rightarrow> time \<Rightarrow> int \<Rightarrow> string \<Rightarrow>
   (License \<times> error option) \<times> store" where
  "CreateLicense s rnd now limit note =
     (if limit \<le> 0 then ((License_zero, Some LimitMustBePositive), s)
      else case NewKey rnd of
             Inl err \<Rightarrow> ((License_zero, Some err), s)
           | Inr key \<Rightarrow>
               (let lic = \<lparr>Key = key, License.Limit = limit, Note = note, Enabled = True,
                           CreatedAt = now\<rparr>
                in case CreateLicense_tx lic s of
                     Inl err \<Rightarrow> ((License_zero, Some err), s)
                   | Inr s' \<Rightarrow> ((lic, None), s')))"

definition SetLimit_tx :: "string \<Rightarrow> int \<Rightarrow> store \<Rightarrow> error + (License \<times> store)" where
  "SetLimit_tx key limit s =
     (case getLicense s key of
        Inl err \<Rightarrow> Inl err
      | Inr lic \<Rightarrow>
          (case putLicense s (lic\<lparr>License.Limit := limit\<rparr>) of
             Inl err \<Rightarrow> Inl err
           | Inr s' \<Rightarrow> Inr (lic\<lparr>License.Limit := limit\<rparr>, s')))"

definition SetLimit :: "store \<Rightarrow> string \<Rightarrow> int \<Rightarrow> (License \<times> error option) \<times> store" where
  "SetLimit s key limit =
     (if limit \<le> 0 then ((License_zero, Some LimitMustBePositive), s)
      else case SetLimit_tx key limit s of
             Inl err \<Rightarrow> ((License_zero, Some err), s)
           | Inr (updated, s') \<Rightarrow> ((updated, None), s'))"

definition SetEnabled_tx :: "string \<Rightarrow> bool \<Rightarrow> store \<Rightarrow> error + (License \<times> store)" where
  "SetEnabled_tx key enabled s =
     (case getLicense s key of
        Inl err \<Rightarrow> Inl err
      | Inr lic \<Rightarrow>
          (case putLicense s (lic\<lparr>Enabled := enabled\<rparr>) of
             Inl err \<Rightarrow> Inl err
           | Inr s' \<Rightarrow> Inr (lic\<lparr>Enabled := enabled\<rparr>, s')))"

definition SetEnabled :: "store \<Rightarrow> string \<Rightarrow> bool \<Rightarrow> (License \<times> error option) \<times> store" where
  "SetEnabled s key enabled =
     (case SetEnabled_tx key enabled s of
        Inl err \<Rightarrow> ((License_zero, Some err), s)
      | Inr (updated, s') \<Rightarrow> ((updated, None), s'))"

subsection \<open>GetInfo\<close>

text \<open>
  \<open>sort.Slice\<close> is not stable: the order it gives to elements that compare equal is
  not specified. The model is the insertion sort that Go runs on a slice of at most
  twelve elements: each element in turn moves towards the front while \<open>less\<close> (here
  \<open>lt\<close>) holds between it and its predecessor. \<open>sift\<close> works on the reversed prefix, the nearest
  predecessor first.
\<close>

fun sift :: "('a \<Rightarrow> 'a \<Rightarrow> bool) \<Rightarrow> 'a \<Rightarrow> 'a list \<Rightarrow> 'a list" where
  "sift lt x [] = [x]"
| "sift lt x (p # ps) = (if lt x p then p # sift lt x ps else x # p # ps)"

definition sort_Slice :: "('a \<Rightarrow> 'a \<Rightarrow> bool) \<Rightarrow> 'a list \<Rightarrow> 'a list" where
  "sort_Slice lt xs = rev (fold (sift lt) xs [])"

text \<open>
  \<open>getBindings\<close>: \<open>nil\<close> (the empty list) when the license has no nested bucket;
  otherwise the bindings in key order, each with its \<open>ServerID\<close> set to its key, then
  sorted with \<open>LastSeen.After\<close> as \<open>less\<close>.
\<close>

definition getBindings :: "store \<Rightarrow> string \<Rightarrow> ServerBinding list" where
  "getBindings s key =
     (case Bucket_Get (usage s) key of
        None \<Rightarrow> []
      | Some u \<Rightarrow>
          sort_Slice (\<lambda>a b. LastSeen a > LastSeen b)
            (ForEach u (\<lambda>k sb bindings. bindings @ [sb\<lparr>ServerID := k\<rparr>]) []))"

definition GetInfo :: "store \<Rightarrow> string \<Rightarrow> LicenseInfo \<times> error option" where
  "GetInfo s key =
     (case getLicense s key of
        Inl err \<Rightarrow> (LicenseInfo_zero, Some err)
      | Inr lic \<Rightarrow>
          (let bindings = getBindings s key
           in (\<lparr>License = lic, LicenseInfo.Used = int (length bindings),
                Bindings = bindings\<rparr>, None)))"

section \<open>Observations and invariants\<close>

text \<open>
  The Binding Ledger of a license: the pairs of its nested bucket, none when the
  bucket is absent.
\<close>

definition ledger :: "store \<Rightarrow> string \<Rightarrow> ServerBinding bucket" where
  "ledger s key = (case Bucket_Get (usage s) key of None \<Rightarrow> [] | Some u \<Rightarrow> u)"

text \<open>The keys of a bucket are in strictly increasing order: no key occurs twice.\<close>

definition keys_ok :: "'v bucket \<Rightarrow> bool" where
  "keys_ok b = sorted_wrt (<) (map fst b)"

text \<open>
  The states of the database that the store produces: every bucket in key order, every
  license record filed under its own key, a key that \<open>Put\<close> accepts, and a positive
  limit.
\<close>

definition wf_store :: "store \<Rightarrow> bool" where
  "wf_store s =
     (keys_ok (licenses s) \<and> keys_ok (usage s) \<and>
      list_all (\<lambda>(k, u). keys_ok u) (usage s) \<and>
      list_all (\<lambda>(k, lic). Key lic = k \<and> k \<noteq> [] \<and> length k \<le> MaxKeySize \<and>
                  0 < License.Limit lic) (licenses s))"

text \<open>
  A run of \<open>Activate\<close> calls for one license key, each call with its clock reading and
  its device identifier: the results in order, and the final state.
\<close>

fun Activate_seq ::
  "store \<Rightarrow> string \<Rightarrow> (time \<times> string) list \<Rightarrow>
   (ActivateResult \<times> error option) list \<times> store" where
  "Activate_seq s key [] = ([], s)"
| "Activate_seq s key ((now, serverID) # calls) =
     (case Activate s now key serverID of
        (r, s') \<Rightarrow> (case Activate_seq s' key calls of (rs, s'') \<Rightarrow> (r # rs, s'')))"

text \<open>The inputs that pass the two checks \<open>Activate\<close> makes before the transaction.\<close>

definition valid_input :: "string \<Rightarrow> bool" where
  "valid_input x = (TrimSpace x \<noteq> [])"

definition valid_serverID :: "string \<Rightarrow> bool" where
  "valid_serverID x = (TrimSpace x \<noteq> [] \<and> length (TrimSpace x) \<le> 128)"

text \<open>The two shapes of a verdict.\<close>

definition rejected :: "string \<Rightarrow> int \<Rightarrow> int \<Rightarrow> ActivateResult" where
  "rejected reason used limit =
     \<lparr>OK = False, Reason = reason, Used = used, Limit = limit, NewlyBound = False\<rparr>"

definition admitted :: "int \<Rightarrow> int \<Rightarrow> bool \<Rightarrow> ActivateResult" where
  "admitted used limit newBinding =
     \<lparr>OK = True, Reason = ''ok'', Used = used, Limit = limit, NewlyBound = newBinding\<rparr>"

text \<open>A printable ASCII character other than the space.\<close>

definition graphic :: "char \<Rightarrow> bool" where
  "graphic c = (CHR 0x20 < c \<and> c < CHR 0x7F)"

text \<open>
  The license of the scenarios: key \<open>K\<close>, limit 2, and the store that holds it with a
  given ledger.
\<close>

definition license_K :: License where
  "license_K = \<lparr>Key = ''K'', License.Limit = 2, Note = [], Enabled = True, CreatedAt = 0\<rparr>"

definition binding :: "string \<Rightarrow> time \<Rightarrow> time \<Rightarrow> 64 word \<Rightarrow> string \<times> ServerBinding" where
  "binding d t0 t1 n = (d, \<lparr>ServerID = d, FirstSeen = t0, LastSeen = t1, SeenCount = n\<rparr>)"

definition store_K :: "License \<Rightarrow> ServerBinding bucket \<Rightarrow> store" where
  "store_K lic u = \<lparr>licenses = [(''K'', lic)], usage = [(''K'', u)]\<rparr>"

text \<open>
  The calls on the store, with the readings of the clock and of the random source
  that they make; the state after a call; the device identifier that a call admits
  under a license (an \<open>Activate\<close> with verdict \<open>ok\<close>); and the device identifiers
  admitted under a license in the course of a list of calls.
\<close>

datatype op =
    Op_CreateLicense "(nat \<Rightarrow> 8 word) option" time int string
  | Op_SetLimit string int
  | Op_SetEnabled string bool
  | Op_Activate time string string

fun apply_op :: "store \<Rightarrow> op \<Rightarrow> store" where
  "apply_op s (Op_CreateLicense rnd now limit note) = snd (CreateLicense s rnd now limit note)"
| "apply_op s (Op_SetLimit key limit) = snd (SetLimit s key limit)"
| "apply_op s (Op_SetEnabled key enabled) = snd (SetEnabled s key enabled)"
| "apply_op s (Op_Activate now key serverID) = snd (Activate s now key serverID)"

fun admitted_by :: "store \<Rightarrow> op \<Rightarrow> string \<Rightarrow> string set" where
  "admitted_by s (Op_Activate now key serverID) k =
     (if OK (fst (fst (Activate s now key serverID))) \<and> TrimSpace key = k
      then {TrimSpace serverID} else {})"
| "admitted_by s _ k = {}"

fun ever_admitted :: "store \<Rightarrow> op list \<Rightarrow> string \<Rightarrow> string set" where
  "ever_admitted s [] k = {}"
| "ever_admitted s (x # xs) k = admitted_by s x k \<union> ever_admitted (apply_op s x) xs k"

text \<open>The device identifiers bound under a license.\<close>

definition bound_ids :: "store \<Rightarrow> string \<Rightarrow> string set" where
  "bound_ids s key = fst ` set (ledger s key)"

text \<open>
  The length of a string in characters, as the specification words the bound on the
  device identifier: the number of code points of well-formed UTF-8, which is the
  number of bytes that are not continuation bytes (\<open>0x80\<close> to \<open>0xBF\<close>). The string
  of 128 times U+00E9, two bytes each.
\<close>

definition characters :: "string \<Rightarrow> nat" where
  "characters s = length (filter (\<lambda>c. \<not> (CHR 0x80 \<le> c \<and> c < CHR 0xC0)) s)"

definition e_acute_128 :: string where
  "e_acute_128 = concat (replicate 128 [CHR 0xC3, CHR 0xA9])"

section \<open>TrimSpace\<close>

lemma spaceEncodings_nonempty: "e \<in> set spaceEncodings \<Longrightarrow> e \<noteq> []"
  by (auto simp: spaceEncodings_def)

lemma leadingSpace_0_iff:
  "leadingSpace s = 0 \<longleftrightarrow> (\<forall>e \<in> set spaceEncodings. take (length e) s \<noteq> e)"
proof (cases "find (\<lambda>e. take (length e) s = e) spaceEncodings")
  case None
  then have "leadingSpace s = 0" by (simp add: leadingSpace_def)
  moreover from None have "\<forall>e \<in> set spaceEncodings. take (length e) s \<noteq> e"
    by (simp add: find_None_iff)
  ultimately show ?thesis by simp
next
  case (Some e)
  then have e: "e \<in> set spaceEncodings" "take (length e) s = e"
    by (auto simp: find_Some_iff)
  from e(1) have "length e \<noteq> 0" using spaceEncodings_nonempty by simp
  with Some have "leadingSpace s \<noteq> 0" by (simp add: leadingSpace_def)
  moreover from e have "\<not> (\<forall>e \<in> set spaceEncodings. take (length e) s \<noteq> e)" by blast
  ultimately show ?thesis by blast
qed

lemma trailingSpace_0_iff:
  "trailingSpace s = 0 \<longleftrightarrow>
     (\<forall>e \<in> set spaceEncodings. drop (length s - length e) s \<noteq> e)"
proof (cases "find (\<lambda>e. drop (length s - length e) s = e) spaceEncodings")
  case None
  then have "trailingSpace s = 0" by (simp add: trailingSpace_def)
  moreover from None have "\<forall>e \<in> set spaceEncodings. drop (length s - length e) s \<noteq> e"
    by (simp add: find_None_iff)
  ultimately show ?thesis by simp
next
  case (Some e)
  then have e: "e \<in> set spaceEncodings" "drop (length s - length e) s = e"
    by (auto simp: find_Some_iff)
  from e(1) have "length e \<noteq> 0" using spaceEncodings_nonempty by simp
  with Some have "trailingSpace s \<noteq> 0" by (simp add: trailingSpace_def)
  moreover from e have "\<not> (\<forall>e \<in> set spaceEncodings. drop (length s - length e) s \<noteq> e)"
    by blast
  ultimately show ?thesis by blast
qed

lemma leadingSpace_TrimLeft: "leadingSpace (TrimLeft s) = 0"
  by (induction s rule: TrimLeft.induct) (subst TrimLeft.simps, simp)

lemma trailingSpace_TrimRight: "trailingSpace (TrimRight s) = 0"
  by (induction s rule: TrimRight.induct) (subst TrimRight.simps, simp)

lemma TrimLeft_id: "leadingSpace s = 0 \<Longrightarrow> TrimLeft s = s"
  by (subst TrimLeft.simps) simp

lemma TrimRight_id: "trailingSpace s = 0 \<Longrightarrow> TrimRight s = s"
  by (subst TrimRight.simps) simp

lemma leadingSpace_take:
  assumes "leadingSpace s = 0"
  shows "leadingSpace (take n s) = 0"
proof -
  have "take (length e) (take n s) \<noteq> e" if e: "e \<in> set spaceEncodings" for e
  proof
    assume eq: "take (length e) (take n s) = e"
    then have "length (take (length e) (take n s)) = length e" by simp
    then have "length e \<le> n" by simp
    then have "take (length e) (take n s) = take (length e) s" by (simp add: min_def)
    with eq have "take (length e) s = e" by simp
    with assms e show False by (simp add: leadingSpace_0_iff)
  qed
  then show ?thesis by (simp add: leadingSpace_0_iff)
qed

lemma leadingSpace_TrimRight: "leadingSpace s = 0 \<Longrightarrow> leadingSpace (TrimRight s) = 0"
proof (induction s rule: TrimRight.induct)
  case (1 s)
  show ?case
  proof (cases "trailingSpace s = 0")
    case True
    with "1.prems" show ?thesis by (simp add: TrimRight_id)
  next
    case False
    from "1.prems" have "leadingSpace (take (length s - trailingSpace s) s) = 0"
      by (rule leadingSpace_take)
    with False "1.IH" show ?thesis by (subst TrimRight.simps) simp
  qed
qed

lemma leadingSpace_TrimSpace: "leadingSpace (TrimSpace s) = 0"
  by (simp add: TrimSpace_def leadingSpace_TrimRight leadingSpace_TrimLeft)

lemma trailingSpace_TrimSpace: "trailingSpace (TrimSpace s) = 0"
  by (simp add: TrimSpace_def trailingSpace_TrimRight)

lemma TrimSpace_idem: "TrimSpace (TrimSpace s) = TrimSpace s"
proof -
  have "TrimLeft (TrimSpace s) = TrimSpace s"
    by (rule TrimLeft_id) (rule leadingSpace_TrimSpace)
  moreover have "TrimRight (TrimSpace s) = TrimSpace s"
    by (rule TrimRight_id) (rule trailingSpace_TrimSpace)
  ultimately show ?thesis by (subst (1) TrimSpace_def) simp
qed

text \<open>The input is white space, the trimmed string, white space.\<close>

lemma TrimLeft_suffix: "\<exists>n. TrimLeft s = drop n s"
proof (induction s rule: TrimLeft.induct)
  case (1 s)
  show ?case
  proof (cases "leadingSpace s = 0")
    case True
    then have "TrimLeft s = drop 0 s" by (simp add: TrimLeft_id)
    then show ?thesis ..
  next
    case False
    with "1.IH" obtain n where "TrimLeft (drop (leadingSpace s) s) = drop n (drop (leadingSpace s) s)"
      by blast
    with False have "TrimLeft s = drop (n + leadingSpace s) s"
      by (subst TrimLeft.simps) (simp add: add.commute)
    then show ?thesis ..
  qed
qed

lemma TrimRight_prefix: "\<exists>n. TrimRight s = take n s"
proof (induction s rule: TrimRight.induct)
  case (1 s)
  show ?case
  proof (cases "trailingSpace s = 0")
    case True
    then have "TrimRight s = take (length s) s" by (simp add: TrimRight_id)
    then show ?thesis ..
  next
    case False
    with "1.IH" obtain n where
      "TrimRight (take (length s - trailingSpace s) s) = take n (take (length s - trailingSpace s) s)"
      by blast
    with False have "TrimRight s = take (min n (length s - trailingSpace s)) s"
      by (subst TrimRight.simps) simp
    then show ?thesis ..
  qed
qed

lemma TrimSpace_length: "length (TrimSpace s) \<le> length s"
proof -
  obtain n where "TrimLeft s = drop n s" using TrimLeft_suffix by blast
  moreover obtain m where "TrimRight (TrimLeft s) = take m (TrimLeft s)"
    using TrimRight_prefix by blast
  ultimately show ?thesis by (simp add: TrimSpace_def)
qed

lemma graphic_leadingSpace:
  assumes "s \<noteq> []" "graphic (hd s)"
  shows "leadingSpace s = 0"
proof -
  have "take (length e) s \<noteq> e" if "e \<in> set spaceEncodings" for e
  proof
    assume "take (length e) s = e"
    moreover from that have "e \<noteq> []" by (rule spaceEncodings_nonempty)
    ultimately have "hd e = hd s" using assms(1) by (metis hd_take length_greater_0_conv)
    moreover from that have "\<not> graphic (hd e)"
      by (auto simp: spaceEncodings_def graphic_def)
    ultimately show False using assms(2) by simp
  qed
  then show ?thesis by (simp add: leadingSpace_0_iff)
qed

lemma graphic_trailingSpace:
  assumes "s \<noteq> []" "graphic (last s)"
  shows "trailingSpace s = 0"
proof -
  have "drop (length s - length e) s \<noteq> e" if "e \<in> set spaceEncodings" for e
  proof
    assume eq: "drop (length s - length e) s = e"
    from that have "e \<noteq> []" by (rule spaceEncodings_nonempty)
    with assms(1) have "length s - length e < length s" by simp
    then have "last (drop (length s - length e) s) = last s" by (rule last_drop)
    with eq have "last e = last s" by simp
    moreover from that have "\<not> graphic (last e)"
      by (auto simp: spaceEncodings_def graphic_def)
    ultimately show False using assms(2) by simp
  qed
  then show ?thesis by (simp add: trailingSpace_0_iff)
qed

lemma TrimSpace_graphic:
  "s \<noteq> [] \<Longrightarrow> graphic (hd s) \<Longrightarrow> graphic (last s) \<Longrightarrow> TrimSpace s = s"
  by (simp add: TrimSpace_def TrimLeft_id TrimRight_id graphic_leadingSpace
      graphic_trailingSpace)

lemma TrimSpace_Nil: "TrimSpace [] = []"
  by (simp add: TrimSpace_def TrimLeft_id TrimRight_id leadingSpace_0_iff trailingSpace_0_iff
      spaceEncodings_def)

text \<open>What is removed is white space, and white space only.\<close>

lemma leadingSpace_in_encodings:
  assumes "leadingSpace s \<noteq> 0"
  shows "take (leadingSpace s) s \<in> set spaceEncodings"
proof (cases "find (\<lambda>e. take (length e) s = e) spaceEncodings")
  case None
  with assms show ?thesis by (simp add: leadingSpace_def)
next
  case (Some e)
  then have "e \<in> set spaceEncodings" "take (length e) s = e"
    by (auto simp: find_Some_iff)
  moreover from Some have "leadingSpace s = length e" by (simp add: leadingSpace_def)
  ultimately show ?thesis by simp
qed

lemma trailingSpace_in_encodings:
  assumes "trailingSpace s \<noteq> 0"
  shows "drop (length s - trailingSpace s) s \<in> set spaceEncodings"
proof (cases "find (\<lambda>e. drop (length s - length e) s = e) spaceEncodings")
  case None
  with assms show ?thesis by (simp add: trailingSpace_def)
next
  case (Some e)
  then have "e \<in> set spaceEncodings" "drop (length s - length e) s = e"
    by (auto simp: find_Some_iff)
  moreover from Some have "trailingSpace s = length e" by (simp add: trailingSpace_def)
  ultimately show ?thesis by simp
qed

lemma TrimLeft_removes_spaces:
  "\<exists>ws. set ws \<subseteq> set spaceEncodings \<and> s = concat ws @ TrimLeft s"
proof (induction s rule: TrimLeft.induct)
  case (1 s)
  show ?case
  proof (cases "leadingSpace s = 0")
    case True
    then have "set [] \<subseteq> set spaceEncodings \<and> s = concat [] @ TrimLeft s"
      by (simp add: TrimLeft_id)
    then show ?thesis by blast
  next
    case False
    let ?e = "take (leadingSpace s) s" and ?r = "drop (leadingSpace s) s"
    from False "1.IH" obtain ws where ws: "set ws \<subseteq> set spaceEncodings"
      "?r = concat ws @ TrimLeft ?r"
      by blast
    from False have e: "?e \<in> set spaceEncodings" by (rule leadingSpace_in_encodings)
    from False have tl: "TrimLeft s = TrimLeft ?r" by (subst TrimLeft.simps) simp
    have "s = ?e @ ?r" by simp
    also have "\<dots> = concat (?e # ws) @ TrimLeft s" using ws(2) tl by simp
    finally have "s = concat (?e # ws) @ TrimLeft s" .
    moreover from e ws(1) have "set (?e # ws) \<subseteq> set spaceEncodings" by simp
    ultimately show ?thesis by blast
  qed
qed

lemma TrimRight_removes_spaces:
  "\<exists>ws. set ws \<subseteq> set spaceEncodings \<and> s = TrimRight s @ concat ws"
proof (induction s rule: TrimRight.induct)
  case (1 s)
  show ?case
  proof (cases "trailingSpace s = 0")
    case True
    then have "set [] \<subseteq> set spaceEncodings \<and> s = TrimRight s @ concat []"
      by (simp add: TrimRight_id)
    then show ?thesis by blast
  next
    case False
    let ?e = "drop (length s - trailingSpace s) s" and ?r = "take (length s - trailingSpace s) s"
    from False "1.IH" obtain ws where ws: "set ws \<subseteq> set spaceEncodings"
      "?r = TrimRight ?r @ concat ws"
      by blast
    from False have e: "?e \<in> set spaceEncodings" by (rule trailingSpace_in_encodings)
    from False have tr: "TrimRight s = TrimRight ?r" by (subst TrimRight.simps) simp
    have "?r @ ?e = (TrimRight ?r @ concat ws) @ ?e"
      by (rule arg_cong [where f = "\<lambda>x. x @ ?e"]) (rule ws(2))
    also have "\<dots> = TrimRight s @ concat (ws @ [?e])" by (simp add: tr)
    finally have "?r @ ?e = TrimRight s @ concat (ws @ [?e])" .
    then have "s = TrimRight s @ concat (ws @ [?e])" by (simp only: append_take_drop_id)
    moreover from e ws(1) have "set (ws @ [?e]) \<subseteq> set spaceEncodings" by simp
    ultimately show ?thesis by blast
  qed
qed

lemma TrimSpace_removes_spaces:
  "\<exists>ws ws'. set ws \<subseteq> set spaceEncodings \<and> set ws' \<subseteq> set spaceEncodings \<and>
     s = concat ws @ TrimSpace s @ concat ws'"
proof -
  obtain ws where ws: "set ws \<subseteq> set spaceEncodings" "s = concat ws @ TrimLeft s"
    using TrimLeft_removes_spaces by blast
  obtain ws' where ws': "set ws' \<subseteq> set spaceEncodings"
    "TrimLeft s = TrimRight (TrimLeft s) @ concat ws'"
    using TrimRight_removes_spaces by blast
  from ws(2) ws'(2) have "s = concat ws @ TrimSpace s @ concat ws'"
    by (simp add: TrimSpace_def)
  with ws(1) ws'(1) show ?thesis by blast
qed

lemma e_acute_len: "length e_acute_128 = 256"
  by (simp add: e_acute_128_def length_concat sum_list_replicate)

lemma e_acute_chars: "characters e_acute_128 = 128"
  by code_simp

lemma e_acute_trim: "TrimSpace e_acute_128 = e_acute_128"
  by code_simp

section \<open>Buckets\<close>

lemma map_of_bucket_insert: "map_of (bucket_insert k v b) = (map_of b)(k \<mapsto> v)"
  by (induction b) (auto simp: fun_eq_iff)

lemma Bucket_Get_insert:
  "Bucket_Get (bucket_insert k v b) k' = (if k' = k then Some v else Bucket_Get b k')"
  by (simp add: Bucket_Get_def map_of_bucket_insert)

lemma fst_set_bucket_insert: "fst ` set (bucket_insert k v b) = insert k (fst ` set b)"
proof -
  have "dom (map_of (bucket_insert k v b)) = insert k (dom (map_of b))"
    by (simp add: map_of_bucket_insert)
  then show ?thesis by (simp add: dom_map_of_conv_image_fst)
qed

lemma length_bucket_insert_new:
  "map_of b k = None \<Longrightarrow> length (bucket_insert k v b) = Suc (length b)"
  by (induction b) (auto split: if_splits)

lemma keys_ok_Cons:
  "keys_ok ((k, v) # b) \<longleftrightarrow> (\<forall>k' \<in> fst ` set b. k < k') \<and> keys_ok b"
  by (auto simp: keys_ok_def)

lemma keys_ok_insert: "keys_ok b \<Longrightarrow> keys_ok (bucket_insert k v b)"
proof (induction b)
  case Nil
  then show ?case by (simp add: keys_ok_def)
next
  case (Cons p b)
  obtain k' v' where p: "p = (k', v')" by (cases p)
  from Cons.prems have lt: "\<forall>x \<in> fst ` set b. k' < x" and ok: "keys_ok b"
    by (simp_all add: p keys_ok_Cons)
  show ?case
  proof (cases "k = k'")
    case True
    with lt ok show ?thesis by (simp add: p keys_ok_Cons)
  next
    case False
    show ?thesis
    proof (cases "k < k'")
      case True
      with lt ok \<open>k \<noteq> k'\<close> show ?thesis
        by (auto simp: p keys_ok_Cons intro: less_trans)
    next
      case False
      with \<open>k \<noteq> k'\<close> have "k' < k" by simp
      with lt Cons.IH [OF ok] False \<open>k \<noteq> k'\<close> show ?thesis
        by (auto simp: p keys_ok_Cons fst_set_bucket_insert)
    qed
  qed
qed

lemma keys_ok_map_of_None:
  "keys_ok ((k', v') # b) \<Longrightarrow> k < k' \<Longrightarrow> map_of b k = None"
  by (force simp: keys_ok_Cons map_of_eq_None_iff)

lemma length_bucket_insert_old:
  "keys_ok b \<Longrightarrow> map_of b k = Some v' \<Longrightarrow> length (bucket_insert k v b) = length b"
proof (induction b)
  case Nil
  then show ?case by simp
next
  case (Cons p b)
  obtain k1 v1 where p: "p = (k1, v1)" by (cases p)
  show ?case
  proof (cases "k = k1")
    case True
    then show ?thesis by (simp add: p)
  next
    case False
    have "\<not> k < k1"
    proof
      assume "k < k1"
      with Cons.prems(1) have "map_of b k = None"
        unfolding p by (rule keys_ok_map_of_None)
      with Cons.prems(2) False show False by (simp add: p)
    qed
    moreover from Cons.prems have "keys_ok b" "map_of b k = Some v'"
      using False by (simp_all add: p keys_ok_Cons)
    ultimately show ?thesis using False Cons.IH by (simp add: p)
  qed
qed

lemma bucket_insert_same:
  "keys_ok b \<Longrightarrow> map_of b k = Some v \<Longrightarrow> bucket_insert k v b = b"
proof (induction b)
  case Nil
  then show ?case by simp
next
  case (Cons p b)
  obtain k1 v1 where p: "p = (k1, v1)" by (cases p)
  show ?case
  proof (cases "k = k1")
    case True
    with Cons.prems show ?thesis by (simp add: p)
  next
    case False
    have "\<not> k < k1"
    proof
      assume "k < k1"
      with Cons.prems(1) have "map_of b k = None"
        unfolding p by (rule keys_ok_map_of_None)
      with Cons.prems(2) False show False by (simp add: p)
    qed
    moreover from Cons.prems have "keys_ok b" "map_of b k = Some v"
      using False by (simp_all add: p keys_ok_Cons)
    ultimately show ?thesis using False Cons.IH by (simp add: p)
  qed
qed

lemma bucket_insert_twice:
  "bucket_insert k v (bucket_insert k v0 b) = bucket_insert k v b"
  by (induction b) auto

lemma countKeys_length: "countKeys b = int (length b)"
proof -
  have "fold (\<lambda>(k, v) n. n + 1) b n = n + int (length b)" for n :: int
    by (induction b arbitrary: n) (auto simp: case_prod_beta)
  then show ?thesis by (simp add: countKeys_def ForEach_def)
qed

lemma keys_ok_distinct: "keys_ok b \<Longrightarrow> distinct (map fst b)"
  by (simp add: keys_ok_def strict_sorted_iff)

lemma keys_ok_length_card: "keys_ok b \<Longrightarrow> length b = card (fst ` set b)"
  using distinct_card [OF keys_ok_distinct, of b] by simp


section \<open>The paths of the Activate transaction\<close>

lemma ledger_Some: "Bucket_Get (usage s) key = Some u \<Longrightarrow> ledger s key = u"
  by (simp add: ledger_def)

lemma ledger_None: "Bucket_Get (usage s) key = None \<Longrightarrow> ledger s key = []"
  by (simp add: ledger_def)

lemma Bucket_Put_ok:
  "k \<noteq> [] \<Longrightarrow> length k \<le> MaxKeySize \<Longrightarrow> Bucket_Put b k v = Inr (bucket_insert k v b)"
  by (simp add: Bucket_Put_def)

lemma Bucket_Put_serverID:
  "serverID \<noteq> [] \<Longrightarrow> length serverID \<le> 128 \<Longrightarrow>
   Bucket_Put b serverID v = Inr (bucket_insert serverID v b)"
  by (simp add: Bucket_Put_def MaxKeySize_def)

lemma length_Put_new:
  "Bucket_Get b k = None \<Longrightarrow> length (bucket_insert k v b) = Suc (length b)"
  by (simp add: Bucket_Get_def length_bucket_insert_new)

lemma length_Put_old:
  "keys_ok b \<Longrightarrow> Bucket_Get b k = Some v' \<Longrightarrow> length (bucket_insert k v b) = length b"
  by (simp add: Bucket_Get_def length_bucket_insert_old)

text \<open>The nested bucket that the transaction works on, and the parent that holds it.\<close>

lemma open_usage:
  assumes "key \<noteq> []"
  shows "(case Bucket_Get (usage s) key of
            Some u \<Rightarrow> Inr (u, usage s)
          | None \<Rightarrow> CreateBucketIfNotExists (usage s) key) =
         Inr (ledger s key,
              case Bucket_Get (usage s) key of
                Some u \<Rightarrow> usage s | None \<Rightarrow> bucket_insert key [] (usage s))"
  using assms by (simp add: CreateBucketIfNotExists_def ledger_def split: option.split)

lemma insert_into_opened:
  "bucket_insert key u'
     (case Bucket_Get (usage s) key of
        Some u \<Rightarrow> usage s | None \<Rightarrow> bucket_insert key [] (usage s)) =
   bucket_insert key u' (usage s)"
  by (simp add: bucket_insert_twice split: option.split)

lemma Activate_put_ok:
  assumes "serverID \<noteq> []" "length serverID \<le> 128"
  shows "Activate_put s lic key serverID root u sb nb =
     Inr (\<lparr>OK = True, Reason = ''ok'', Used = int (length (bucket_insert serverID sb u)),
           Limit = License.Limit lic, NewlyBound = nb\<rparr>,
          s\<lparr>usage := bucket_insert key (bucket_insert serverID sb u) root\<rparr>)"
  using assms by (simp add: Activate_put_def Bucket_Put_serverID countKeys_length)

lemma Activate_tx_not_found:
  "Bucket_Get (licenses s) key = None \<Longrightarrow>
   Activate_tx now key serverID s = Inr (rejected ''not_found'' 0 0, s)"
  by (simp add: Activate_tx_def getLicense_def rejected_def)

lemma Activate_tx_disabled:
  "Bucket_Get (licenses s) key = Some lic \<Longrightarrow> \<not> Enabled lic \<Longrightarrow>
   Activate_tx now key serverID s = Inr (rejected ''disabled'' 0 (License.Limit lic), s)"
  by (simp add: Activate_tx_def getLicense_def rejected_def)

lemma Activate_tx_refresh:
  assumes "Bucket_Get (licenses s) key = Some lic" "Enabled lic"
    and "key \<noteq> []" "serverID \<noteq> []" "length serverID \<le> 128"
    and "Bucket_Get (ledger s key) serverID = Some sb"
  shows "Activate_tx now key serverID s =
     Inr (admitted
            (int (length (bucket_insert serverID
               (sb\<lparr>LastSeen := now, SeenCount := SeenCount sb + 1\<rparr>) (ledger s key))))
            (License.Limit lic) False,
          s\<lparr>usage := bucket_insert key
             (bucket_insert serverID (sb\<lparr>LastSeen := now, SeenCount := SeenCount sb + 1\<rparr>)
                (ledger s key))
             (usage s)\<rparr>)"
  using assms
  by (simp add: Activate_tx_def getLicense_def open_usage Activate_put_ok insert_into_opened
      admitted_def)

lemma Activate_tx_limit_reached:
  assumes "Bucket_Get (licenses s) key = Some lic" "Enabled lic"
    and "key \<noteq> []"
    and "Bucket_Get (ledger s key) serverID = None"
    and "License.Limit lic \<le> int (length (ledger s key))"
  shows "Activate_tx now key serverID s =
     Inr (rejected ''limit_reached'' (int (length (ledger s key))) (License.Limit lic),
          s\<lparr>usage := case Bucket_Get (usage s) key of
                Some u \<Rightarrow> usage s | None \<Rightarrow> bucket_insert key [] (usage s)\<rparr>)"
  using assms
  by (simp add: Activate_tx_def getLicense_def open_usage countKeys_length rejected_def)

lemma Activate_tx_new:
  assumes "Bucket_Get (licenses s) key = Some lic" "Enabled lic"
    and "key \<noteq> []" "serverID \<noteq> []" "length serverID \<le> 128"
    and "Bucket_Get (ledger s key) serverID = None"
    and "int (length (ledger s key)) < License.Limit lic"
  shows "Activate_tx now key serverID s =
     Inr (admitted (int (length (ledger s key)) + 1) (License.Limit lic) True,
          s\<lparr>usage := bucket_insert key
             (bucket_insert serverID
                \<lparr>ServerID = serverID, FirstSeen = now, LastSeen = now, SeenCount = 1\<rparr>
                (ledger s key))
             (usage s)\<rparr>)"
  using assms
  by (simp add: Activate_tx_def getLicense_def open_usage countKeys_length Activate_put_ok
      insert_into_opened admitted_def length_Put_new)


lemma Activate_valid:
  assumes "TrimSpace key0 \<noteq> []" "TrimSpace serverID0 \<noteq> []"
    and "length (TrimSpace serverID0) \<le> 128"
  shows "Activate s now key0 serverID0 =
     (case Activate_tx now (TrimSpace key0) (TrimSpace serverID0) s of
        Inl err \<Rightarrow> ((ActivateResult_zero, Some err), s)
      | Inr (res, s') \<Rightarrow> ((res, None), s'))"
  using assms by (simp add: Activate_def)

lemma Activate_invalid_request:
  "TrimSpace key0 = [] \<or> TrimSpace serverID0 = [] \<Longrightarrow>
   Activate s now key0 serverID0 = ((rejected ''invalid_request'' 0 0, None), s)"
  by (auto simp: Activate_def rejected_def)

lemma Activate_too_long:
  "TrimSpace key0 \<noteq> [] \<Longrightarrow> TrimSpace serverID0 \<noteq> [] \<Longrightarrow>
   128 < length (TrimSpace serverID0) \<Longrightarrow>
   Activate s now key0 serverID0 = ((rejected ''server_id_too_long'' 0 0, None), s)"
  by (simp add: Activate_def rejected_def)

text \<open>What a well-formed store knows about a license and about a ledger.\<close>

lemma wf_license:
  assumes "wf_store s" "Bucket_Get (licenses s) key = Some lic"
  shows "Key lic = key" "key \<noteq> []" "length key \<le> MaxKeySize" "0 < License.Limit lic"
proof -
  from assms(2) have "(key, lic) \<in> set (licenses s)"
    by (simp add: Bucket_Get_def map_of_SomeD)
  with assms(1) have "Key lic = key \<and> key \<noteq> [] \<and> length key \<le> MaxKeySize \<and>
      0 < License.Limit lic"
    by (auto simp: wf_store_def list_all_iff)
  then show "Key lic = key" "key \<noteq> []" "length key \<le> MaxKeySize" "0 < License.Limit lic"
    by simp_all
qed

lemma wf_ledger: "wf_store s \<Longrightarrow> keys_ok (ledger s key)"
proof (cases "Bucket_Get (usage s) key")
  case None
  then show ?thesis by (simp add: ledger_def keys_ok_def)
next
  case (Some u)
  assume "wf_store s"
  moreover from Some have "(key, u) \<in> set (usage s)"
    by (simp add: Bucket_Get_def map_of_SomeD)
  ultimately have "keys_ok u" by (auto simp: wf_store_def list_all_iff)
  with Some show ?thesis by (simp add: ledger_def)
qed

lemma list_all_bucket_insert:
  "P (k, v) \<Longrightarrow> list_all P b \<Longrightarrow> list_all P (bucket_insert k v b)"
  by (induction b) auto

lemma wf_store_usage_update:
  assumes "wf_store s" "keys_ok u"
  shows "wf_store (s\<lparr>usage := bucket_insert key u (usage s)\<rparr>)"
  using assms by (simp add: wf_store_def keys_ok_insert list_all_bucket_insert)

text \<open>The ledgers after a write to one of them.\<close>

lemma ledger_usage_update:
  "ledger (s\<lparr>usage := bucket_insert key u (usage s)\<rparr>) key' =
     (if key' = key then u else ledger s key')"
  by (simp add: ledger_def Bucket_Get_insert)

lemma nonempty_ledger_in_usage:
  "ledger s key \<noteq> [] \<Longrightarrow>
   (case Bucket_Get (usage s) key of
      Some u \<Rightarrow> usage s | None \<Rightarrow> bucket_insert key [] (usage s)) = usage s"
  by (simp add: ledger_def split: option.splits)

text \<open>The five ways through a call whose inputs pass the checks.\<close>

lemma Activate_paths:
  assumes "TrimSpace key0 = key" "TrimSpace serverID0 = serverID"
    and "key \<noteq> []" "serverID \<noteq> []" "length serverID \<le> 128"
  shows
   "(Bucket_Get (licenses s) key = None \<and>
     Activate s now key0 serverID0 = ((rejected ''not_found'' 0 0, None), s))
  \<or> (\<exists>lic. Bucket_Get (licenses s) key = Some lic \<and> \<not> Enabled lic \<and>
       Activate s now key0 serverID0 =
         ((rejected ''disabled'' 0 (License.Limit lic), None), s))
  \<or> (\<exists>lic sb. Bucket_Get (licenses s) key = Some lic \<and> Enabled lic \<and>
       Bucket_Get (ledger s key) serverID = Some sb \<and>
       Activate s now key0 serverID0 =
         ((admitted
             (int (length (bucket_insert serverID
                (sb\<lparr>LastSeen := now, SeenCount := SeenCount sb + 1\<rparr>) (ledger s key))))
             (License.Limit lic) False, None),
          s\<lparr>usage := bucket_insert key
             (bucket_insert serverID (sb\<lparr>LastSeen := now, SeenCount := SeenCount sb + 1\<rparr>)
                (ledger s key))
             (usage s)\<rparr>))
  \<or> (\<exists>lic. Bucket_Get (licenses s) key = Some lic \<and> Enabled lic \<and>
       Bucket_Get (ledger s key) serverID = None \<and>
       License.Limit lic \<le> int (length (ledger s key)) \<and>
       Activate s now key0 serverID0 =
         ((rejected ''limit_reached'' (int (length (ledger s key))) (License.Limit lic),
           None),
          s\<lparr>usage := case Bucket_Get (usage s) key of
                Some u \<Rightarrow> usage s | None \<Rightarrow> bucket_insert key [] (usage s)\<rparr>))
  \<or> (\<exists>lic. Bucket_Get (licenses s) key = Some lic \<and> Enabled lic \<and>
       Bucket_Get (ledger s key) serverID = None \<and>
       int (length (ledger s key)) < License.Limit lic \<and>
       Activate s now key0 serverID0 =
         ((admitted (int (length (ledger s key)) + 1) (License.Limit lic) True, None),
          s\<lparr>usage := bucket_insert key
             (bucket_insert serverID
                \<lparr>ServerID = serverID, FirstSeen = now, LastSeen = now, SeenCount = 1\<rparr>
                (ledger s key))
             (usage s)\<rparr>))"
proof -
  have A: "Activate s now key0 serverID0 =
     (case Activate_tx now key serverID s of
        Inl err \<Rightarrow> ((ActivateResult_zero, Some err), s)
      | Inr (res, s') \<Rightarrow> ((res, None), s'))"
    using assms Activate_valid [of key0 serverID0 s now] by simp
  show ?thesis
  proof (cases "Bucket_Get (licenses s) key")
    case None
    then show ?thesis by (simp add: A Activate_tx_not_found)
  next
    case (Some lic)
    show ?thesis
    proof (cases "Enabled lic")
      case False
      with Some show ?thesis by (simp add: A Activate_tx_disabled)
    next
      case True
      show ?thesis
      proof (cases "Bucket_Get (ledger s key) serverID")
        case (Some sb)
        with \<open>Bucket_Get (licenses s) key = Some lic\<close> True assms show ?thesis
          by (simp add: A Activate_tx_refresh)
      next
        case None
        show ?thesis
        proof (cases "License.Limit lic \<le> int (length (ledger s key))")
          case True
          with \<open>Bucket_Get (licenses s) key = Some lic\<close> \<open>Enabled lic\<close> None assms
          show ?thesis by (simp add: A Activate_tx_limit_reached)
        next
          case False
          with \<open>Bucket_Get (licenses s) key = Some lic\<close> \<open>Enabled lic\<close> None assms
          show ?thesis by (simp add: A Activate_tx_new)
        qed
      qed
    qed
  qed
qed


lemma Activate_not_found:
  assumes "valid_input key0" "valid_serverID serverID0"
    and "Bucket_Get (licenses s) (TrimSpace key0) = None"
  shows "Activate s now key0 serverID0 = ((rejected ''not_found'' 0 0, None), s)"
  using assms
  by (simp add: valid_input_def valid_serverID_def Activate_valid Activate_tx_not_found)

lemma Activate_disabled:
  assumes "valid_input key0" "valid_serverID serverID0"
    and "Bucket_Get (licenses s) (TrimSpace key0) = Some lic" "\<not> Enabled lic"
  shows "Activate s now key0 serverID0 =
           ((rejected ''disabled'' 0 (License.Limit lic), None), s)"
  using assms
  by (simp add: valid_input_def valid_serverID_def Activate_valid Activate_tx_disabled)

lemma Activate_refresh:
  assumes "valid_input key0" "valid_serverID serverID0"
    and "Bucket_Get (licenses s) (TrimSpace key0) = Some lic" "Enabled lic"
    and "Bucket_Get (ledger s (TrimSpace key0)) (TrimSpace serverID0) = Some sb"
    and "keys_ok (ledger s (TrimSpace key0))"
  shows "Activate s now key0 serverID0 =
     ((admitted (int (length (ledger s (TrimSpace key0)))) (License.Limit lic) False, None),
      s\<lparr>usage := bucket_insert (TrimSpace key0)
         (bucket_insert (TrimSpace serverID0)
            (sb\<lparr>LastSeen := now, SeenCount := SeenCount sb + 1\<rparr>)
            (ledger s (TrimSpace key0)))
         (usage s)\<rparr>)"
  using assms
  by (simp add: valid_input_def valid_serverID_def Activate_valid Activate_tx_refresh
      length_Put_old)

lemma Activate_new:
  assumes "valid_input key0" "valid_serverID serverID0"
    and "Bucket_Get (licenses s) (TrimSpace key0) = Some lic" "Enabled lic"
    and "Bucket_Get (ledger s (TrimSpace key0)) (TrimSpace serverID0) = None"
    and "int (length (ledger s (TrimSpace key0))) < License.Limit lic"
  shows "Activate s now key0 serverID0 =
     ((admitted (int (length (ledger s (TrimSpace key0))) + 1) (License.Limit lic) True, None),
      s\<lparr>usage := bucket_insert (TrimSpace key0)
         (bucket_insert (TrimSpace serverID0)
            \<lparr>ServerID = TrimSpace serverID0, FirstSeen = now, LastSeen = now, SeenCount = 1\<rparr>
            (ledger s (TrimSpace key0)))
         (usage s)\<rparr>)"
  using assms
  by (simp add: valid_input_def valid_serverID_def Activate_valid Activate_tx_new)

lemma Activate_limit_reached:
  assumes "valid_input key0" "valid_serverID serverID0"
    and "Bucket_Get (licenses s) (TrimSpace key0) = Some lic" "Enabled lic"
    and "Bucket_Get (ledger s (TrimSpace key0)) (TrimSpace serverID0) = None"
    and "License.Limit lic \<le> int (length (ledger s (TrimSpace key0)))"
    and "0 < License.Limit lic"
  shows "Activate s now key0 serverID0 =
     ((rejected ''limit_reached'' (int (length (ledger s (TrimSpace key0))))
         (License.Limit lic), None), s)"
proof -
  from assms(6,7) have "ledger s (TrimSpace key0) \<noteq> []" by auto
  then have "(case Bucket_Get (usage s) (TrimSpace key0) of
      Some u \<Rightarrow> usage s | None \<Rightarrow> bucket_insert (TrimSpace key0) [] (usage s)) = usage s"
    by (rule nonempty_ledger_in_usage)
  with assms show ?thesis
    by (simp add: valid_input_def valid_serverID_def Activate_valid Activate_tx_limit_reached)
qed

text \<open>The inputs of the scenarios pass the checks unchanged.\<close>

lemma examples_trimmed:
  "TrimSpace ''K'' = ''K''" "TrimSpace ''A'' = ''A''" "TrimSpace ''B'' = ''B''"
  "TrimSpace ''C'' = ''C''"
  by (simp_all add: TrimSpace_graphic graphic_def)

lemma examples_valid:
  "valid_input ''K''" "valid_serverID ''A''" "valid_serverID ''B''" "valid_serverID ''C''"
  by (simp_all add: valid_input_def valid_serverID_def examples_trimmed)

section \<open>The key generator\<close>

lemma length_base32_group: "length bs = 5 \<Longrightarrow> length (base32_group bs) = 8"
proof -
  assume "length bs = 5"
  then obtain b0 b1 b2 b3 b4 where "bs = [b0, b1, b2, b3, b4]"
    by (auto simp: length_Suc_conv numeral_eq_Suc)
  then show ?thesis by (simp add: base32_group_def)
qed

lemma length_EncodeToString: "length bs = 5 * n \<Longrightarrow> length (EncodeToString bs) = 8 * n"
proof (induction n arbitrary: bs)
  case 0
  then show ?case by (subst EncodeToString.simps) simp
next
  case (Suc n)
  then have "length (drop 5 bs) = 5 * n" "length (take 5 bs) = 5" "bs \<noteq> []" "5 \<le> length bs"
    by auto
  with Suc.IH [of "drop 5 bs"] show ?case
    by (subst EncodeToString.simps) (simp add: length_base32_group)
qed

lemma length_parts_of: "length (concat (parts_of s)) = length s"
proof (induction s rule: parts_of.induct)
  case (1 s)
  show ?case
  proof (cases "s = []")
    case True
    then show ?thesis by (subst parts_of.simps) simp
  next
    case False
    with "1.IH" have "length (concat (parts_of (drop 4 s))) = length s - 4" by simp
    with False show ?thesis by (subst parts_of.simps) simp
  qed
qed

lemma count_parts_of: "length (parts_of s) = (length s + 3) div 4"
proof (induction s rule: parts_of.induct)
  case (1 s)
  show ?case
  proof (cases "s = []")
    case True
    then show ?thesis by (subst parts_of.simps) simp
  next
    case False
    then have "0 < length s" by simp
    with "1.IH" False have "length (parts_of (drop 4 s)) = (length s - 4 + 3) div 4" by simp
    moreover from \<open>0 < length s\<close>
    have "Suc ((length s - 4 + 3) div 4) = (length s + 3) div 4" by presburger
    ultimately show ?thesis using False by (subst parts_of.simps) simp
  qed
qed

lemma length_Join:
  "length (Join ps sep) = length (concat ps) + (length ps - 1) * length sep"
  by (induction ps sep rule: Join.induct) simp_all

lemma NewKey_failed: "NewKey None = Inl RandReadFailed"
  by (simp add: NewKey_def rand_Read_def)

lemma NewKey_length:
  assumes "NewKey rnd = Inr key"
  shows "length key = 47"
proof -
  from assms obtain f where rnd: "rnd = Some f"
    by (cases rnd) (simp_all add: NewKey_failed)
  let ?enc = "ToUpper (EncodeToString (map f [0..<20]))"
  have "length (EncodeToString (map f [0..<20])) = 8 * 4"
    by (rule length_EncodeToString) simp
  then have len: "length ?enc = 32" by (simp add: ToUpper_def)
  have "key = ''KYPAQET-'' @ Join (parts_of ?enc) ''-''"
    using assms by (simp add: rnd NewKey_def rand_Read_def)
  then show ?thesis
    by (simp add: length_Join length_parts_of count_parts_of len)
qed

lemma NewKey_accepted:
  assumes "NewKey rnd = Inr key"
  shows "key \<noteq> []" "length key \<le> MaxKeySize"
  using NewKey_length [OF assms] by (auto simp: MaxKeySize_def)

lemma NewKey_zeros:
  "NewKey (Some (\<lambda>i. 0)) = Inr ''KYPAQET-AAAA-AAAA-AAAA-AAAA-AAAA-AAAA-AAAA-AAAA''"
  by code_simp

section \<open>The registry operations\<close>

lemma wf_store_licenses_update:
  assumes "wf_store s" "Key lic = key" "key \<noteq> []" "length key \<le> MaxKeySize"
    and "0 < License.Limit lic"
  shows "wf_store (s\<lparr>licenses := bucket_insert key lic (licenses s)\<rparr>)"
  using assms by (simp add: wf_store_def keys_ok_insert list_all_bucket_insert)

lemma putLicense_ok:
  assumes "Key lic = key" "key \<noteq> []" "length key \<le> MaxKeySize"
  shows "putLicense s lic = Inr (s\<lparr>licenses := bucket_insert key lic (licenses s)\<rparr>)"
  using assms by (simp add: putLicense_def Bucket_Put_ok)

lemma SetEnabled_not_found:
  "Bucket_Get (licenses s) key = None \<Longrightarrow>
   SetEnabled s key enabled = ((License_zero, Some errNotFound), s)"
  by (simp add: SetEnabled_def SetEnabled_tx_def getLicense_def)

lemma SetEnabled_found:
  assumes "wf_store s" "Bucket_Get (licenses s) key = Some lic"
  shows "SetEnabled s key enabled =
     ((lic\<lparr>Enabled := enabled\<rparr>, None),
      s\<lparr>licenses := bucket_insert key (lic\<lparr>Enabled := enabled\<rparr>) (licenses s)\<rparr>)"
  using wf_license [OF assms]
  by (simp add: SetEnabled_def SetEnabled_tx_def getLicense_def assms(2) putLicense_ok)

lemma SetLimit_not_found:
  "0 < limit \<Longrightarrow> Bucket_Get (licenses s) key = None \<Longrightarrow>
   SetLimit s key limit = ((License_zero, Some errNotFound), s)"
  by (simp add: SetLimit_def SetLimit_tx_def getLicense_def)

lemma SetLimit_found:
  assumes "wf_store s" "Bucket_Get (licenses s) key = Some lic" "0 < limit"
  shows "SetLimit s key limit =
     ((lic\<lparr>License.Limit := limit\<rparr>, None),
      s\<lparr>licenses := bucket_insert key (lic\<lparr>License.Limit := limit\<rparr>) (licenses s)\<rparr>)"
  using wf_license [OF assms(1,2)] assms(3)
  by (simp add: SetLimit_def SetLimit_tx_def getLicense_def assms(2) putLicense_ok)

lemma ledger_licenses_update [simp]: "ledger (s\<lparr>licenses := b\<rparr>) key = ledger s key"
  by (simp add: ledger_def)

lemma ledger_after_write:
  "ledger (s\<lparr>usage := bucket_insert key u (usage s)\<rparr>) key = u"
  by (simp add: ledger_usage_update)

lemma wf_store_K_A: "wf_store (store_K license_K [binding ''A'' 1 2 1])"
  by (simp add: wf_store_def store_K_def binding_def license_K_def keys_ok_def MaxKeySize_def)

lemma wf_store_K_AB: "wf_store (store_K license_K [binding ''A'' 1 2 1, binding ''B'' 1 1 1])"
  by (simp add: wf_store_def store_K_def binding_def license_K_def keys_ok_def MaxKeySize_def)

lemma get_store_K: "Bucket_Get (licenses (store_K lic u)) (TrimSpace ''K'') = Some lic"
  by (simp add: examples_trimmed store_K_def Bucket_Get_def)

lemma ledger_store_K: "ledger (store_K lic u) (TrimSpace ''K'') = u"
  by (simp add: examples_trimmed store_K_def ledger_def Bucket_Get_def)

lemma ledger_new_bucket:
  "ledger (s\<lparr>licenses := b,
             usage := case Bucket_Get (usage s) key of
                        Some u \<Rightarrow> usage s | None \<Rightarrow> bucket_insert key [] (usage s)\<rparr>) k =
   ledger s k"
  by (simp add: ledger_def Bucket_Get_insert split: option.splits)

lemma CreateLicense_tx_ok:
  assumes "Key lic = key" "key \<noteq> []" "length key \<le> MaxKeySize"
    and "Bucket_Get (licenses s) key = None"
  shows "CreateLicense_tx lic s =
     Inr (s\<lparr>licenses := bucket_insert key lic (licenses s),
             usage := case Bucket_Get (usage s) key of
                        Some u \<Rightarrow> usage s
                      | None \<Rightarrow> bucket_insert key [] (usage s)\<rparr>)"
  using assms
  by (simp add: CreateLicense_tx_def Bucket_Put_ok CreateBucketIfNotExists_def
      split: option.splits)

lemma keys_ok_Nil: "keys_ok []"
  by (simp add: keys_ok_def)

lemma wf_store_new_license:
  assumes "wf_store s" "Key lic = key" "key \<noteq> []" "length key \<le> MaxKeySize"
    and "0 < License.Limit lic"
  shows "wf_store (s\<lparr>licenses := bucket_insert key lic (licenses s),
                      usage := case Bucket_Get (usage s) key of
                                 Some u \<Rightarrow> usage s
                               | None \<Rightarrow> bucket_insert key [] (usage s)\<rparr>)"
  using assms
  by (simp add: wf_store_def keys_ok_insert list_all_bucket_insert keys_ok_Nil
      split: option.splits)

lemma wf_OpenBBolt: "wf_store OpenBBolt"
  by (simp add: wf_store_def OpenBBolt_def keys_ok_def)

section \<open>Sorting the bindings\<close>

lemma mset_sift: "mset (sift lt x r) = add_mset x (mset r)"
  by (induction r) auto

lemma mset_fold_sift: "mset (fold (sift lt) xs acc) = mset xs + mset acc"
  by (induction xs arbitrary: acc) (auto simp: mset_sift)

lemma mset_sort_Slice: "mset (sort_Slice lt xs) = mset xs"
  by (simp add: sort_Slice_def mset_fold_sift)

lemma length_sort_Slice: "length (sort_Slice lt xs) = length xs"
  using mset_sort_Slice [of lt xs] by (metis size_mset)

lemma sorted_sift:
  fixes f :: "'a \<Rightarrow> int"
  assumes "sorted (map f r)"
  shows "sorted (map f (sift (\<lambda>a b. f b < f a) x r))"
  using assms
proof (induction r)
  case Nil
  then show ?case by simp
next
  case (Cons p ps)
  show ?case
  proof (cases "f p < f x")
    case True
    have "set (sift (\<lambda>a b. f b < f a) x ps) = insert x (set ps)"
      using mset_sift [of "\<lambda>a b. f b < f a" x ps] by (metis set_mset_mset set_mset_add_mset_insert)
    with Cons True show ?thesis by auto
  next
    case False
    with Cons.prems show ?thesis by auto
  qed
qed

lemma sorted_fold_sift:
  fixes f :: "'a \<Rightarrow> int"
  shows "sorted (map f acc) \<Longrightarrow> sorted (map f (fold (sift (\<lambda>a b. f b < f a)) xs acc))"
  by (induction xs arbitrary: acc) (simp_all add: sorted_sift)

lemma sorted_sort_Slice:
  fixes f :: "'a \<Rightarrow> int"
  shows "sorted_wrt (\<lambda>a b. f b \<le> f a) (sort_Slice (\<lambda>a b. f b < f a) xs)"
proof -
  have "sorted (map f (fold (sift (\<lambda>a b. f b < f a)) xs []))"
    by (rule sorted_fold_sift) simp
  then have "sorted_wrt (\<lambda>a b. f a \<le> f b) (fold (sift (\<lambda>a b. f b < f a)) xs [])"
    by (simp add: sorted_map)
  then show ?thesis
    by (simp add: sort_Slice_def sorted_wrt_rev)
qed

lemma ForEach_append:
  "ForEach u (\<lambda>k sb bindings. bindings @ [g k sb]) acc = acc @ map (\<lambda>(k, sb). g k sb) u"
  unfolding ForEach_def by (induction u arbitrary: acc) auto

lemma getBindings_ledger:
  "getBindings s key =
     sort_Slice (\<lambda>a b. LastSeen b < LastSeen a)
       (map (\<lambda>(k, sb). sb\<lparr>ServerID := k\<rparr>) (ledger s key))"
  by (simp add: getBindings_def ledger_def ForEach_append sort_Slice_def split: option.splits)

text \<open>The calls of the scenario, evaluated.\<close>

lemma Activate_eval:
  "Activate (store_K license_K []) 10 ''K'' ''B'' =
     ((admitted 1 2 True, None), store_K license_K [binding ''B'' 10 10 1])"
  "Activate (store_K license_K [binding ''B'' 10 10 1]) 11 ''K'' ''A'' =
     ((admitted 2 2 True, None), store_K license_K [binding ''A'' 11 11 1, binding ''B'' 10 10 1])"
  "Activate (store_K license_K [binding ''A'' 11 11 1, binding ''B'' 10 10 1]) 12 ''K'' ''C'' =
     ((rejected ''limit_reached'' 2 2, None),
      store_K license_K [binding ''A'' 11 11 1, binding ''B'' 10 10 1])"
  "Activate (store_K license_K [binding ''A'' 11 11 1, binding ''B'' 10 10 1]) 13 ''K'' ''A'' =
     ((admitted 2 2 False, None), store_K license_K [binding ''A'' 11 13 2, binding ''B'' 10 10 1])"
  by (simp_all add: Activate_def Activate_tx_def Activate_put_def getLicense_def Bucket_Get_def
      Bucket_Put_def countKeys_length store_K_def license_K_def binding_def MaxKeySize_def
      examples_trimmed Let_def admitted_def rejected_def)


section \<open>The checks on the inputs\<close>

text \<open>
  C4 (as amended). \<open>Activate\<close> works on the trimmed key and the trimmed device
  identifier: each input is white space, the trimmed string, white space, and the
  trimmed string neither starts nor ends with white space. If either trimmed string is
  empty the verdict is \<open>invalid_request\<close>; otherwise, if the trimmed device identifier
  is longer than 128 bytes (Go's \<open>len\<close>), it is \<open>server_id_too_long\<close>. Both verdicts
  are the same at every state of the database, come with no error, and leave the
  state as it was. A device identifier of exactly 128 bytes, or fewer, gets neither
  verdict.
\<close>

theorem Activate_checks_trimmed_inputs:
  "Activate s now key serverID = Activate s now (TrimSpace key) (TrimSpace serverID) \<and>
   (\<forall>x \<in> {key, serverID}.
      leadingSpace (TrimSpace x) = 0 \<and> trailingSpace (TrimSpace x) = 0 \<and>
      (\<exists>ws ws'. set ws \<subseteq> set spaceEncodings \<and> set ws' \<subseteq> set spaceEncodings \<and>
         x = concat ws @ TrimSpace x @ concat ws')) \<and>
   (TrimSpace key = [] \<or> TrimSpace serverID = [] \<longrightarrow>
      Activate s now key serverID = ((rejected ''invalid_request'' 0 0, None), s)) \<and>
   (TrimSpace key \<noteq> [] \<and> TrimSpace serverID \<noteq> [] \<and> 128 < length (TrimSpace serverID) \<longrightarrow>
      Activate s now key serverID = ((rejected ''server_id_too_long'' 0 0, None), s)) \<and>
   (TrimSpace key \<noteq> [] \<and> TrimSpace serverID \<noteq> [] \<and> length (TrimSpace serverID) \<le> 128 \<longrightarrow>
      Reason (fst (fst (Activate s now key serverID))) \<in>
        {''not_found'', ''disabled'', ''limit_reached'', ''ok''})"
proof (intro conjI impI ballI)
  show "Activate s now key serverID = Activate s now (TrimSpace key) (TrimSpace serverID)"
    by (simp add: Activate_def TrimSpace_idem)
next
  fix x :: string
  show "leadingSpace (TrimSpace x) = 0" by (rule leadingSpace_TrimSpace)
  show "trailingSpace (TrimSpace x) = 0" by (rule trailingSpace_TrimSpace)
  show "\<exists>ws ws'. set ws \<subseteq> set spaceEncodings \<and> set ws' \<subseteq> set spaceEncodings \<and>
      x = concat ws @ TrimSpace x @ concat ws'"
    by (rule TrimSpace_removes_spaces)
next
  assume "TrimSpace key = [] \<or> TrimSpace serverID = []"
  then show "Activate s now key serverID = ((rejected ''invalid_request'' 0 0, None), s)"
    by (rule Activate_invalid_request)
next
  assume "TrimSpace key \<noteq> [] \<and> TrimSpace serverID \<noteq> [] \<and> 128 < length (TrimSpace serverID)"
  then show "Activate s now key serverID = ((rejected ''server_id_too_long'' 0 0, None), s)"
    by (simp add: Activate_too_long)
next
  assume "TrimSpace key \<noteq> [] \<and> TrimSpace serverID \<noteq> [] \<and> length (TrimSpace serverID) \<le> 128"
  then have "TrimSpace key \<noteq> []" "TrimSpace serverID \<noteq> []" "length (TrimSpace serverID) \<le> 128"
    by simp_all
  from Activate_paths [OF refl refl this, of s now]
  show "Reason (fst (fst (Activate s now key serverID))) \<in>
        {''not_found'', ''disabled'', ''limit_reached'', ''ok''}"
    by (auto simp: rejected_def admitted_def)
qed

text \<open>
  A key between spaces and a blank device identifier; a device identifier of 129 bytes;
  one of 128 bytes; and a key between a tab, a no-break space (U+00A0) and a line feed.
\<close>

theorem Activate_checks_trimmed_inputs_witness:
  "Activate (store_K license_K []) 7 '' K '' ''  '' =
     ((rejected ''invalid_request'' 0 0, None), store_K license_K []) \<and>
   Activate (store_K license_K []) 7 ''K'' (replicate 129 CHR ''a'') =
     ((rejected ''server_id_too_long'' 0 0, None), store_K license_K []) \<and>
   Reason (fst (fst (Activate (store_K license_K []) 7 ''K'' (replicate 128 CHR ''a'')))) \<in>
     {''not_found'', ''disabled'', ''limit_reached'', ''ok''} \<and>
   TrimSpace [CHR 0x09, CHR 0xC2, CHR 0xA0, CHR ''K'', CHR 0x0A] = ''K''"
proof -
  have K: "TrimSpace ''K'' = ''K''" and K': "TrimSpace '' K '' = ''K''"
    and blank: "TrimSpace ''  '' = []"
    and nbsp: "TrimSpace [CHR 0x09, CHR 0xC2, CHR 0xA0, CHR ''K'', CHR 0x0A] = ''K''"
    by (simp_all add: TrimSpace_def TrimLeft.simps TrimRight.simps leadingSpace_def
        trailingSpace_def spaceEncodings_def)
  have a129: "TrimSpace (replicate 129 CHR ''a'') = replicate 129 CHR ''a''"
    and a128: "TrimSpace (replicate 128 CHR ''a'') = replicate 128 CHR ''a''"
    by (simp_all add: TrimSpace_graphic graphic_def)
  show ?thesis
    using Activate_checks_trimmed_inputs [where key = "'' K ''" and serverID = "''  ''"
        and s = "store_K license_K []" and now = 7, THEN conjunct2, THEN conjunct2]
      Activate_checks_trimmed_inputs [where key = "''K''"
        and serverID = "replicate 129 CHR ''a''" and s = "store_K license_K []" and now = 7,
        THEN conjunct2, THEN conjunct2]
      Activate_checks_trimmed_inputs [where key = "''K''"
        and serverID = "replicate 128 CHR ''a''" and s = "store_K license_K []" and now = 7,
        THEN conjunct2, THEN conjunct2]
    by (simp add: K K' blank a129 a128 nbsp)
qed

text \<open>
  The claim as it stands, with the bound in characters, fails: the device identifier
  of 128 times U+00E9 has exactly 128 characters and is rejected as too long, for it
  has 256 bytes.
\<close>

theorem Activate_128_characters_too_long:
  "characters e_acute_128 = 128 \<and>
   Activate (store_K license_K []) 7 ''K'' e_acute_128 =
     ((rejected ''server_id_too_long'' 0 0, None), store_K license_K [])"
proof -
  have "TrimSpace ''K'' \<noteq> []" by (simp add: examples_trimmed)
  moreover have "TrimSpace e_acute_128 \<noteq> []" "128 < length (TrimSpace e_acute_128)"
    using e_acute_len by (auto simp: e_acute_trim)
  ultimately have "Activate (store_K license_K []) 7 ''K'' e_acute_128 =
      ((rejected ''server_id_too_long'' 0 0, None), store_K license_K [])"
    by (rule Activate_too_long)
  with e_acute_chars show ?thesis by simp
qed

section \<open>A disabled license\<close>

text \<open>
  C10. On the \<open>disabled\<close> path the verdict carries \<open>Used = 0\<close>, whatever the number of
  bindings of the license, and the limit of the license.
\<close>

theorem Activate_disabled_Used_zero:
  assumes "valid_input key" "valid_serverID serverID"
    and "Bucket_Get (licenses s) (TrimSpace key) = Some lic" "\<not> Enabled lic"
  shows "Reason (fst (fst (Activate s now key serverID))) = ''disabled'' \<and>
         Used (fst (fst (Activate s now key serverID))) = 0 \<and>
         Limit (fst (fst (Activate s now key serverID))) = License.Limit lic"
  using Activate_disabled [OF assms] by (simp add: rejected_def)

theorem Activate_disabled_Used_zero_witness:
  "length (ledger (store_K (license_K\<lparr>Enabled := False\<rparr>)
             [binding ''A'' 1 2 1, binding ''B'' 1 1 1]) ''K'') = 2 \<and>
   Reason (fst (fst (Activate (store_K (license_K\<lparr>Enabled := False\<rparr>)
             [binding ''A'' 1 2 1, binding ''B'' 1 1 1]) 9 ''K'' ''A''))) = ''disabled'' \<and>
   Used (fst (fst (Activate (store_K (license_K\<lparr>Enabled := False\<rparr>)
             [binding ''A'' 1 2 1, binding ''B'' 1 1 1]) 9 ''K'' ''A''))) = 0 \<and>
   Limit (fst (fst (Activate (store_K (license_K\<lparr>Enabled := False\<rparr>)
             [binding ''A'' 1 2 1, binding ''B'' 1 1 1]) 9 ''K'' ''A''))) = 2"
  using Activate_disabled_Used_zero [of "''K''" "''A''"
      "store_K (license_K\<lparr>Enabled := False\<rparr>) [binding ''A'' 1 2 1, binding ''B'' 1 1 1]"
      "license_K\<lparr>Enabled := False\<rparr>" 9]
  by (simp add: examples_valid examples_trimmed store_K_def license_K_def Bucket_Get_def
      ledger_def)


text \<open>
  C3. A disabled license rejects every activation, of a new or of a bound device, with
  \<open>disabled\<close> and its limit, and the state stays as it was. \<open>SetEnabled\<close> writes the
  license record only: the \<open>usage\<close> bucket, hence every binding, is untouched.
  Disabling an enabled license and enabling it again gives back the very state before
  the two calls, so that every later call behaves as if the license had never been
  disabled.
\<close>

theorem disable_blocks_enable_restores:
  assumes "wf_store s" "valid_input key" "valid_serverID serverID"
    and "Bucket_Get (licenses s) (TrimSpace key) = Some lic"
  shows "(\<not> Enabled lic \<longrightarrow>
            Activate s now key serverID =
              ((rejected ''disabled'' 0 (License.Limit lic), None), s)) \<and>
         fst (SetEnabled s (TrimSpace key) False) = (lic\<lparr>Enabled := False\<rparr>, None) \<and>
         usage (snd (SetEnabled s (TrimSpace key) False)) = usage s \<and>
         Activate (snd (SetEnabled s (TrimSpace key) False)) now key serverID =
           ((rejected ''disabled'' 0 (License.Limit lic), None),
            snd (SetEnabled s (TrimSpace key) False)) \<and>
         (Enabled lic \<longrightarrow>
            SetEnabled (snd (SetEnabled s (TrimSpace key) False)) (TrimSpace key) True =
              ((lic, None), s))"
proof -
  let ?k = "TrimSpace key"
  let ?off = "s\<lparr>licenses := bucket_insert ?k (lic\<lparr>Enabled := False\<rparr>) (licenses s)\<rparr>"
  have off: "SetEnabled s ?k False = ((lic\<lparr>Enabled := False\<rparr>, None), ?off)"
    using assms(1,4) by (rule SetEnabled_found)
  have lic: "Key lic = ?k" "?k \<noteq> []" "length ?k \<le> MaxKeySize" "0 < License.Limit lic"
    using wf_license [OF assms(1,4)] by simp_all
  have wf_off: "wf_store ?off"
    using assms(1) lic by (intro wf_store_licenses_update) simp_all
  have get_off: "Bucket_Get (licenses ?off) ?k = Some (lic\<lparr>Enabled := False\<rparr>)"
    by (simp add: Bucket_Get_insert)
  have blocked: "Activate ?off now key serverID =
      ((rejected ''disabled'' 0 (License.Limit lic), None), ?off)"
    using Activate_disabled [OF assms(2,3) get_off] by simp
  have restored: "SetEnabled ?off ?k True = ((lic, None), s)" if "Enabled lic"
  proof -
    from that have same: "lic\<lparr>Enabled := True\<rparr> = lic" by simp
    have "keys_ok (licenses s)" using assms(1) by (simp add: wf_store_def)
    moreover have "map_of (licenses s) ?k = Some lic"
      using assms(4) by (simp add: Bucket_Get_def)
    ultimately have "bucket_insert ?k lic (licenses s) = licenses s"
      by (rule bucket_insert_same)
    then show ?thesis
      using SetEnabled_found [OF wf_off get_off, of True]
      by (simp add: same bucket_insert_twice)
  qed
  show ?thesis
    using Activate_disabled [OF assms(2,3,4)] blocked restored by (simp add: off)
qed

theorem disable_blocks_enable_restores_witness:
  "Activate (snd (SetEnabled (store_K license_K [binding ''A'' 1 2 1]) ''K'' False)) 9 ''K'' ''A'' =
     ((rejected ''disabled'' 0 2, None),
      snd (SetEnabled (store_K license_K [binding ''A'' 1 2 1]) ''K'' False)) \<and>
   Activate (snd (SetEnabled (store_K license_K [binding ''A'' 1 2 1]) ''K'' False)) 9 ''K'' ''B'' =
     ((rejected ''disabled'' 0 2, None),
      snd (SetEnabled (store_K license_K [binding ''A'' 1 2 1]) ''K'' False)) \<and>
   usage (snd (SetEnabled (store_K license_K [binding ''A'' 1 2 1]) ''K'' False)) =
     [(''K'', [binding ''A'' 1 2 1])] \<and>
   SetEnabled (snd (SetEnabled (store_K license_K [binding ''A'' 1 2 1]) ''K'' False)) ''K'' True =
     ((license_K, None), store_K license_K [binding ''A'' 1 2 1])"
proof -
  have wf: "wf_store (store_K license_K [binding ''A'' 1 2 1])"
    by (simp add: wf_store_def store_K_def binding_def license_K_def keys_ok_def
        MaxKeySize_def)
  have get: "Bucket_Get (licenses (store_K license_K [binding ''A'' 1 2 1])) (TrimSpace ''K'') =
      Some license_K"
    by (simp add: examples_trimmed store_K_def Bucket_Get_def)
  show ?thesis
    using disable_blocks_enable_restores [OF wf examples_valid(1,2) get, of 9]
      disable_blocks_enable_restores [OF wf examples_valid(1,3) get, of 9]
    by (simp add: examples_trimmed) (simp add: license_K_def store_K_def)
qed


section \<open>The effect of one call\<close>

text \<open>What one call does to the state, by the verdict it returns.\<close>

lemma Activate_effect:
  assumes "wf_store s"
  shows "case Activate s now key serverID of
           ((res, err), s') \<Rightarrow>
             err = None \<and>
             (if OK res then
                Reason res = ''ok'' \<and> licenses s' = licenses s \<and>
                (\<forall>k. k \<noteq> TrimSpace key \<longrightarrow> ledger s' k = ledger s k) \<and>
                (\<forall>d. d \<noteq> TrimSpace serverID \<longrightarrow>
                   Bucket_Get (ledger s' (TrimSpace key)) d =
                   Bucket_Get (ledger s (TrimSpace key)) d) \<and>
                Bucket_Get (ledger s' (TrimSpace key)) (TrimSpace serverID) =
                  Some (case Bucket_Get (ledger s (TrimSpace key)) (TrimSpace serverID) of
                          None \<Rightarrow>
                            \<lparr>ServerID = TrimSpace serverID, FirstSeen = now, LastSeen = now,
                             SeenCount = 1\<rparr>
                        | Some sb \<Rightarrow> sb\<lparr>LastSeen := now, SeenCount := SeenCount sb + 1\<rparr>) \<and>
                (NewlyBound res \<longleftrightarrow>
                   Bucket_Get (ledger s (TrimSpace key)) (TrimSpace serverID) = None) \<and>
                length (ledger s' (TrimSpace key)) =
                  length (ledger s (TrimSpace key)) + (if NewlyBound res then 1 else 0) \<and>
                Used res = int (length (ledger s' (TrimSpace key)))
              else
                Reason res \<in> {''invalid_request'', ''server_id_too_long'', ''not_found'',
                              ''disabled'', ''limit_reached''} \<and>
                s' = s)"
proof (cases "valid_input key \<and> valid_serverID serverID")
  case False
  then consider "TrimSpace key = [] \<or> TrimSpace serverID = []"
    | "TrimSpace key \<noteq> []" "TrimSpace serverID \<noteq> []" "128 < length (TrimSpace serverID)"
    by (auto simp: valid_input_def valid_serverID_def not_le)
  then show ?thesis
  proof cases
    case 1
    then show ?thesis by (simp add: Activate_invalid_request rejected_def)
  next
    case 2
    then show ?thesis by (simp add: Activate_too_long rejected_def)
  qed
next
  case True
  then have v: "valid_input key" "valid_serverID serverID" by simp_all
  let ?k = "TrimSpace key" and ?d = "TrimSpace serverID"
  show ?thesis
  proof (cases "Bucket_Get (licenses s) ?k")
    case None
    with v show ?thesis by (simp add: Activate_not_found rejected_def)
  next
    case (Some lic)
    note lic = wf_license [OF assms Some]
    show ?thesis
    proof (cases "Enabled lic")
      case False
      with v Some show ?thesis by (simp add: Activate_disabled rejected_def)
    next
      case True
      show ?thesis
      proof (cases "Bucket_Get (ledger s ?k) ?d")
        case (Some sb)
        have ok: "keys_ok (ledger s ?k)" using assms by (rule wf_ledger)
        show ?thesis
          using Activate_refresh [OF v \<open>Bucket_Get (licenses s) ?k = Some lic\<close> True Some ok]
          by (simp add: admitted_def ledger_usage_update Bucket_Get_insert Some
              length_Put_old [OF ok Some])
      next
        case None
        show ?thesis
        proof (cases "License.Limit lic \<le> int (length (ledger s ?k))")
          case True
          show ?thesis
            using Activate_limit_reached
              [OF v \<open>Bucket_Get (licenses s) ?k = Some lic\<close> \<open>Enabled lic\<close> None True lic(4)]
            by (simp add: rejected_def)
        next
          case False
          then have "int (length (ledger s ?k)) < License.Limit lic" by simp
          from Activate_new
            [OF v \<open>Bucket_Get (licenses s) ?k = Some lic\<close> \<open>Enabled lic\<close> None this]
          show ?thesis
            by (simp add: admitted_def ledger_usage_update Bucket_Get_insert None
                length_Put_new [OF None])
        qed
      qed
    qed
  qed
qed

text \<open>
  C6. A call of \<open>Activate\<close> returns no error. When the verdict is \<open>ok\<close>, the license
  records and the ledgers of the other licenses are as before, and in the ledger of
  the license every binding but that of the device is as before. The binding of the
  device is, when there was none, the new one (first and last seen at the clock
  reading of the call, seen once) and the verdict says \<open>newly_bound\<close>; when there
  was one, it is that one with \<open>last_seen\<close> set to the clock reading and \<open>seen_count\<close>
  one higher, and the verdict does not say \<open>newly_bound\<close>. The number of bindings has
  grown by one in the first case and not at all in the second, and is the reported
  \<open>used\<close>. When the verdict is not \<open>ok\<close>, its reason is one of the five rejections and
  the state is the one before the call.
\<close>

theorem Activate_one_effect:
  assumes "wf_store s"
  shows "case Activate s now key serverID of
           ((res, err), s') \<Rightarrow>
             err = None \<and>
             (if OK res then
                Reason res = ''ok'' \<and> licenses s' = licenses s \<and>
                (\<forall>k. k \<noteq> TrimSpace key \<longrightarrow> ledger s' k = ledger s k) \<and>
                (\<forall>d. d \<noteq> TrimSpace serverID \<longrightarrow>
                   Bucket_Get (ledger s' (TrimSpace key)) d =
                   Bucket_Get (ledger s (TrimSpace key)) d) \<and>
                Bucket_Get (ledger s' (TrimSpace key)) (TrimSpace serverID) =
                  Some (case Bucket_Get (ledger s (TrimSpace key)) (TrimSpace serverID) of
                          None \<Rightarrow>
                            \<lparr>ServerID = TrimSpace serverID, FirstSeen = now, LastSeen = now,
                             SeenCount = 1\<rparr>
                        | Some sb \<Rightarrow> sb\<lparr>LastSeen := now, SeenCount := SeenCount sb + 1\<rparr>) \<and>
                (NewlyBound res \<longleftrightarrow>
                   Bucket_Get (ledger s (TrimSpace key)) (TrimSpace serverID) = None) \<and>
                length (ledger s' (TrimSpace key)) =
                  length (ledger s (TrimSpace key)) + (if NewlyBound res then 1 else 0) \<and>
                Used res = int (length (ledger s' (TrimSpace key)))
              else
                Reason res \<in> {''invalid_request'', ''server_id_too_long'', ''not_found'',
                              ''disabled'', ''limit_reached''} \<and>
                s' = s)"
  using assms by (rule Activate_effect)

text \<open>
  On the license with limit 2: the device \<open>B\<close> is bound, then \<open>A\<close>; \<open>C\<close> is
  rejected; \<open>A\<close> is activated again.
\<close>

theorem Activate_one_effect_witness:
  "Activate (store_K license_K []) 10 ''K'' ''B'' =
     ((admitted 1 2 True, None), store_K license_K [binding ''B'' 10 10 1]) \<and>
   Bucket_Get (ledger (snd (Activate (store_K license_K []) 10 ''K'' ''B'')) ''K'') ''B'' =
     Some \<lparr>ServerID = ''B'', FirstSeen = 10, LastSeen = 10, SeenCount = 1\<rparr> \<and>
   Activate (store_K license_K [binding ''A'' 11 11 1, binding ''B'' 10 10 1]) 12 ''K'' ''C'' =
     ((rejected ''limit_reached'' 2 2, None),
      store_K license_K [binding ''A'' 11 11 1, binding ''B'' 10 10 1]) \<and>
   Activate (store_K license_K [binding ''A'' 11 11 1, binding ''B'' 10 10 1]) 13 ''K'' ''A'' =
     ((admitted 2 2 False, None),
      store_K license_K [binding ''A'' 11 13 2, binding ''B'' 10 10 1]) \<and>
   Bucket_Get (ledger (snd (Activate
       (store_K license_K [binding ''A'' 11 11 1, binding ''B'' 10 10 1]) 13 ''K'' ''A''))
     ''K'') ''A'' =
     Some \<lparr>ServerID = ''A'', FirstSeen = 11, LastSeen = 13, SeenCount = 2\<rparr> \<and>
   Bucket_Get (ledger (snd (Activate
       (store_K license_K [binding ''A'' 11 11 1, binding ''B'' 10 10 1]) 13 ''K'' ''A''))
     ''K'') ''B'' =
     Some \<lparr>ServerID = ''B'', FirstSeen = 10, LastSeen = 10, SeenCount = 1\<rparr>"
proof -
  let ?init = "store_K license_K []"
  let ?AB = "store_K license_K [binding ''A'' 11 11 1, binding ''B'' 10 10 1]"
  have wf: "wf_store ?init" "wf_store ?AB"
    by (simp_all add: wf_store_def store_K_def binding_def license_K_def keys_ok_def
        MaxKeySize_def)
  note led = ledger_store_K [unfolded examples_trimmed]
  from Activate_one_effect [OF wf(1), where now = 10 and key = "''K''" and serverID = "''B''"]
  have c1: "Bucket_Get (ledger (snd (Activate ?init 10 ''K'' ''B'')) ''K'') ''B'' =
      Some \<lparr>ServerID = ''B'', FirstSeen = 10, LastSeen = 10, SeenCount = 1\<rparr>"
    by (simp add: Activate_eval(1) [unfolded binding_def] admitted_def examples_trimmed led
        Bucket_Get_def binding_def)
  from Activate_one_effect [OF wf(2), where now = 13 and key = "''K''" and serverID = "''A''"]
  have c2: "Bucket_Get (ledger (snd (Activate ?AB 13 ''K'' ''A'')) ''K'') ''A'' =
      Some \<lparr>ServerID = ''A'', FirstSeen = 11, LastSeen = 13, SeenCount = 2\<rparr>"
    and c3: "Bucket_Get (ledger (snd (Activate ?AB 13 ''K'' ''A'')) ''K'') ''B'' =
      Some \<lparr>ServerID = ''B'', FirstSeen = 10, LastSeen = 10, SeenCount = 1\<rparr>"
    by (simp_all add: Activate_eval(4) [unfolded binding_def] admitted_def examples_trimmed
        led Bucket_Get_def binding_def)
  show ?thesis using Activate_eval(1,3,4) c1 c2 c3 by (intro conjI)
qed

section \<open>Activating a bound device again\<close>





section \<open>Changing the limit\<close>

text \<open>
  C8. \<open>SetLimit\<close> with a limit that is not positive returns the error and the state
  as it was; so does \<open>SetLimit\<close> for a key that has no license, with \<open>errNotFound\<close>.
  Otherwise it returns the license record with the new limit and no error; in the new
  state that record is filed under the key, every other license record and the whole
  \<open>usage\<close> bucket (all bindings) are as before, and a device that was bound under the
  license is still admitted when it is activated again, also when the new limit is
  below the number of bindings.
\<close>

theorem SetLimit_changes_only_the_limit:
  assumes "wf_store s"
  shows "(limit \<le> 0 \<longrightarrow>
            SetLimit s key limit = ((License_zero, Some LimitMustBePositive), s)) \<and>
         (0 < limit \<and> Bucket_Get (licenses s) key = None \<longrightarrow>
            SetLimit s key limit = ((License_zero, Some errNotFound), s) \<and>
            class_of errNotFound = NotFound) \<and>
         (0 < limit \<and> Bucket_Get (licenses s) key = Some lic \<longrightarrow>
            (case SetLimit s key limit of
               ((updated, err), s') \<Rightarrow>
                 err = None \<and> updated = lic\<lparr>License.Limit := limit\<rparr> \<and>
                 Key updated = Key lic \<and> Note updated = Note lic \<and>
                 Enabled updated = Enabled lic \<and> CreatedAt updated = CreatedAt lic \<and>
                 (\<forall>k. Bucket_Get (licenses s') k =
                        (if k = key then Some updated else Bucket_Get (licenses s) k)) \<and>
                 usage s' = usage s \<and>
                 (\<forall>now key0 serverID sb.
                    TrimSpace key0 = key \<and> valid_serverID serverID \<and> Enabled lic \<and>
                    Bucket_Get (ledger s key) (TrimSpace serverID) = Some sb \<longrightarrow>
                    fst (Activate s' now key0 serverID) =
                      (admitted (int (length (ledger s key))) limit False, None))))"
proof (intro conjI impI)
  assume "limit \<le> 0"
  then show "SetLimit s key limit = ((License_zero, Some LimitMustBePositive), s)"
    by (simp add: SetLimit_def)
next
  assume "0 < limit \<and> Bucket_Get (licenses s) key = None"
  then show "SetLimit s key limit = ((License_zero, Some errNotFound), s)"
    by (simp add: SetLimit_not_found)
next
  show "class_of errNotFound = NotFound" by simp
next
  assume a: "0 < limit \<and> Bucket_Get (licenses s) key = Some lic"
  let ?lic = "lic\<lparr>License.Limit := limit\<rparr>"
  let ?s = "s\<lparr>licenses := bucket_insert key ?lic (licenses s)\<rparr>"
  from a have run: "SetLimit s key limit = ((?lic, None), ?s)"
    using SetLimit_found [OF assms, of key lic limit] by simp
  from a have lic: "Key lic = key" "key \<noteq> []" "length key \<le> MaxKeySize"
    using wf_license [OF assms, of key lic] by simp_all
  have wf: "wf_store ?s"
    using assms lic a by (intro wf_store_licenses_update) simp_all
  have get: "Bucket_Get (licenses ?s) key = Some ?lic"
    by (simp add: Bucket_Get_insert)
  have again: "fst (Activate ?s now key0 serverID) =
      (admitted (int (length (ledger s key))) limit False, None)"
    if "TrimSpace key0 = key" "valid_serverID serverID" "Enabled lic"
      "Bucket_Get (ledger s key) (TrimSpace serverID) = Some sb"
    for now key0 serverID sb
  proof -
    from that(1) lic(2) have v: "valid_input key0" by (simp add: valid_input_def)
    have "keys_ok (ledger ?s (TrimSpace key0))" using wf by (rule wf_ledger)
    with Activate_refresh [OF v that(2), of ?s ?lic sb now] get that
    show ?thesis by simp
  qed
  show "case SetLimit s key limit of
      ((updated, err), s') \<Rightarrow>
        err = None \<and> updated = lic\<lparr>License.Limit := limit\<rparr> \<and>
        Key updated = Key lic \<and> Note updated = Note lic \<and>
        Enabled updated = Enabled lic \<and> CreatedAt updated = CreatedAt lic \<and>
        (\<forall>k. Bucket_Get (licenses s') k =
               (if k = key then Some updated else Bucket_Get (licenses s) k)) \<and>
        usage s' = usage s \<and>
        (\<forall>now key0 serverID sb.
           TrimSpace key0 = key \<and> valid_serverID serverID \<and> Enabled lic \<and>
           Bucket_Get (ledger s key) (TrimSpace serverID) = Some sb \<longrightarrow>
           fst (Activate s' now key0 serverID) =
             (admitted (int (length (ledger s key))) limit False, None))"
    using again by (auto simp: run Bucket_Get_insert)
qed

text \<open>
  Two devices are bound under the license; its limit is lowered from 2 to 1. Both
  bindings stay, and the device \<open>B\<close> is admitted again.
\<close>

theorem SetLimit_changes_only_the_limit_witness:
  "SetLimit (store_K license_K [binding ''A'' 1 2 1, binding ''B'' 1 1 1]) ''K'' 0 =
     ((License_zero, Some LimitMustBePositive),
      store_K license_K [binding ''A'' 1 2 1, binding ''B'' 1 1 1]) \<and>
   SetLimit (store_K license_K [binding ''A'' 1 2 1, binding ''B'' 1 1 1]) ''J'' 1 =
     ((License_zero, Some errNotFound),
      store_K license_K [binding ''A'' 1 2 1, binding ''B'' 1 1 1]) \<and>
   SetLimit (store_K license_K [binding ''A'' 1 2 1, binding ''B'' 1 1 1]) ''K'' 1 =
     ((license_K\<lparr>License.Limit := 1\<rparr>, None),
      store_K (license_K\<lparr>License.Limit := 1\<rparr>) [binding ''A'' 1 2 1, binding ''B'' 1 1 1]) \<and>
   fst (Activate (snd (SetLimit (store_K license_K [binding ''A'' 1 2 1, binding ''B'' 1 1 1])
                         ''K'' 1)) 9 ''K'' ''B'') =
     (admitted 2 1 False, None)"
proof -
  let ?s = "store_K license_K [binding ''A'' 1 2 1, binding ''B'' 1 1 1]"
  have getK: "Bucket_Get (licenses ?s) ''K'' = Some license_K"
    and getJ: "Bucket_Get (licenses ?s) ''J'' = None"
    by (simp_all add: store_K_def Bucket_Get_def)
  have run: "SetLimit ?s ''K'' 1 =
      ((license_K\<lparr>License.Limit := 1\<rparr>, None),
       store_K (license_K\<lparr>License.Limit := 1\<rparr>) [binding ''A'' 1 2 1, binding ''B'' 1 1 1])"
    using SetLimit_found [OF wf_store_K_AB getK, of 1] by (simp add: store_K_def)
  have bound: "Bucket_Get (ledger ?s ''K'') (TrimSpace ''B'') = Some (snd (binding ''B'' 1 1 1))"
    using ledger_store_K [of license_K "[binding ''A'' 1 2 1, binding ''B'' 1 1 1]"]
    by (simp add: examples_trimmed Bucket_Get_def binding_def)
  have len: "length (ledger ?s ''K'') = 2"
    using ledger_store_K [of license_K "[binding ''A'' 1 2 1, binding ''B'' 1 1 1]"]
    by (simp add: examples_trimmed)
  have en: "Enabled license_K" by (simp add: license_K_def)
  from SetLimit_changes_only_the_limit [OF wf_store_K_AB, of 0 "''K''" license_K]
  have c1: "SetLimit ?s ''K'' 0 = ((License_zero, Some LimitMustBePositive), ?s)" by simp
  from SetLimit_changes_only_the_limit [OF wf_store_K_AB, of 1 "''J''" license_K] getJ
  have c2: "SetLimit ?s ''J'' 1 = ((License_zero, Some errNotFound), ?s)" by simp
  from SetLimit_changes_only_the_limit [OF wf_store_K_AB, of 1 "''K''" license_K] getK
  have "\<forall>now key0 serverID sb.
      TrimSpace key0 = ''K'' \<and> valid_serverID serverID \<and> Enabled license_K \<and>
      Bucket_Get (ledger ?s ''K'') (TrimSpace serverID) = Some sb \<longrightarrow>
      fst (Activate (snd (SetLimit ?s ''K'' 1)) now key0 serverID) =
        (admitted (int (length (ledger ?s ''K''))) 1 False, None)"
    by (simp add: split_beta)
  with examples_trimmed(1) examples_valid(3) en bound len
  have c3: "fst (Activate (snd (SetLimit ?s ''K'' 1)) 9 ''K'' ''B'') = (admitted 2 1 False, None)"
    by fastforce
  show ?thesis using c1 c2 c3 run by simp
qed


section \<open>Creating a license\<close>

text \<open>The three ways through \<open>CreateLicense\<close> when the generator gives a key.\<close>

lemma CreateLicense_cases:
  "(limit \<le> 0 \<longrightarrow>
      CreateLicense s rnd now limit note = ((License_zero, Some LimitMustBePositive), s) \<and>
      class_of LimitMustBePositive = InvalidArgument) \<and>
   (0 < limit \<and> NewKey rnd = Inr key \<and> Bucket_Get (licenses s) key \<noteq> None \<longrightarrow>
      CreateLicense s rnd now limit note = ((License_zero, Some KeyCollision), s) \<and>
      class_of KeyCollision = Conflict) \<and>
   (0 < limit \<and> NewKey rnd = Inr key \<and> Bucket_Get (licenses s) key = None \<longrightarrow>
      (case CreateLicense s rnd now limit note of
         ((lic, err), s') \<Rightarrow>
           err = None \<and>
           lic = \<lparr>Key = key, License.Limit = limit, Note = note, Enabled = True,
                  CreatedAt = now\<rparr> \<and>
           (\<forall>k. Bucket_Get (licenses s') k =
                  (if k = key then Some lic else Bucket_Get (licenses s) k)) \<and>
           (\<forall>k. ledger s' k = ledger s k) \<and>
           (wf_store s \<longrightarrow> wf_store s')))"
proof (intro conjI impI)
  assume "limit \<le> 0"
  then show "CreateLicense s rnd now limit note =
      ((License_zero, Some LimitMustBePositive), s)"
    by (simp add: CreateLicense_def)
next
  show "class_of LimitMustBePositive = InvalidArgument" by simp
next
  assume "0 < limit \<and> NewKey rnd = Inr key \<and> Bucket_Get (licenses s) key \<noteq> None"
  then show "CreateLicense s rnd now limit note = ((License_zero, Some KeyCollision), s)"
    by (auto simp: CreateLicense_def CreateLicense_tx_def)
next
  show "class_of KeyCollision = Conflict" by simp
next
  assume a: "0 < limit \<and> NewKey rnd = Inr key \<and> Bucket_Get (licenses s) key = None"
  let ?lic = "\<lparr>Key = key, License.Limit = limit, Note = note, Enabled = True,
      CreatedAt = now\<rparr>"
  let ?s = "s\<lparr>licenses := bucket_insert key ?lic (licenses s),
      usage := case Bucket_Get (usage s) key of
                 Some u \<Rightarrow> usage s | None \<Rightarrow> bucket_insert key [] (usage s)\<rparr>"
  from a have key: "key \<noteq> []" "length key \<le> MaxKeySize"
    using NewKey_accepted [of rnd key] by simp_all
  with a have "CreateLicense_tx ?lic s = Inr ?s"
    using CreateLicense_tx_ok [of ?lic key s] by simp
  with a have run: "CreateLicense s rnd now limit note = ((?lic, None), ?s)"
    by (simp add: CreateLicense_def Let_def)
  have wf: "wf_store ?s" if "wf_store s"
    using that key a by (intro wf_store_new_license) simp_all
  show "case CreateLicense s rnd now limit note of
      ((lic, err), s') \<Rightarrow>
        err = None \<and>
        lic = \<lparr>Key = key, License.Limit = limit, Note = note, Enabled = True,
               CreatedAt = now\<rparr> \<and>
        (\<forall>k. Bucket_Get (licenses s') k =
               (if k = key then Some lic else Bucket_Get (licenses s) k)) \<and>
        (\<forall>k. ledger s' k = ledger s k) \<and>
        (wf_store s \<longrightarrow> wf_store s')"
    using wf by (simp add: run Bucket_Get_insert ledger_new_bucket)
qed

text \<open>
  C7. \<open>CreateLicense\<close> with a limit that is not positive returns the error
  \<open>limit must be > 0\<close> (class InvalidArgument) and the state as it was. With a positive
  limit and the key that the generator gives: when a license is filed under that key
  the result is the error \<open>key collision\<close> (class Conflict) and the state as it was;
  otherwise the result is the license with that key, the given limit and note,
  \<open>enabled\<close> and created at the clock reading of the call, without error, and in the
  new state exactly this record has been added, with no binding made or lost.
\<close>

theorem CreateLicense_result:
  "(limit \<le> 0 \<longrightarrow>
      CreateLicense s rnd now limit note = ((License_zero, Some LimitMustBePositive), s) \<and>
      class_of LimitMustBePositive = InvalidArgument) \<and>
   (0 < limit \<and> NewKey rnd = Inr key \<and> Bucket_Get (licenses s) key \<noteq> None \<longrightarrow>
      CreateLicense s rnd now limit note = ((License_zero, Some KeyCollision), s) \<and>
      class_of KeyCollision = Conflict) \<and>
   (0 < limit \<and> NewKey rnd = Inr key \<and> Bucket_Get (licenses s) key = None \<longrightarrow>
      (case CreateLicense s rnd now limit note of
         ((lic, err), s') \<Rightarrow>
           err = None \<and>
           lic = \<lparr>Key = key, License.Limit = limit, Note = note, Enabled = True,
                  CreatedAt = now\<rparr> \<and>
           (\<forall>k. Bucket_Get (licenses s') k =
                  (if k = key then Some lic else Bucket_Get (licenses s) k)) \<and>
           (\<forall>k. ledger s' k = ledger s k) \<and>
           (wf_store s \<longrightarrow> wf_store s')))"
  by (rule CreateLicense_cases)

text \<open>
  On a new database, with a generator that reads zero bytes: a limit of 0 is refused,
  a limit of 3 gives the license, and the same key a second time is a collision.
\<close>

theorem CreateLicense_result_witness:
  "CreateLicense OpenBBolt (Some (\<lambda>i. 0)) 7 0 ''note'' =
     ((License_zero, Some LimitMustBePositive), OpenBBolt) \<and>
   CreateLicense OpenBBolt (Some (\<lambda>i. 0)) 7 3 ''note'' =
     ((\<lparr>Key = ''KYPAQET-AAAA-AAAA-AAAA-AAAA-AAAA-AAAA-AAAA-AAAA'', License.Limit = 3,
        Note = ''note'', Enabled = True, CreatedAt = 7\<rparr>, None),
      \<lparr>licenses =
         [(''KYPAQET-AAAA-AAAA-AAAA-AAAA-AAAA-AAAA-AAAA-AAAA'',
           \<lparr>Key = ''KYPAQET-AAAA-AAAA-AAAA-AAAA-AAAA-AAAA-AAAA-AAAA'', License.Limit = 3,
            Note = ''note'', Enabled = True, CreatedAt = 7\<rparr>)],
       usage = [(''KYPAQET-AAAA-AAAA-AAAA-AAAA-AAAA-AAAA-AAAA-AAAA'', [])]\<rparr>) \<and>
   CreateLicense (snd (CreateLicense OpenBBolt (Some (\<lambda>i. 0)) 7 3 ''note''))
       (Some (\<lambda>i. 0)) 8 5 ''other'' =
     ((License_zero, Some KeyCollision),
      snd (CreateLicense OpenBBolt (Some (\<lambda>i. 0)) 7 3 ''note''))"
proof -
  let ?key = "''KYPAQET-AAAA-AAAA-AAAA-AAAA-AAAA-AAAA-AAAA-AAAA''"
  let ?lic = "\<lparr>Key = ?key, License.Limit = 3, Note = ''note'', Enabled = True, CreatedAt = 7\<rparr>"
  let ?s = "\<lparr>licenses = [(?key, ?lic)], usage = [(?key, [])]\<rparr>"
  have run: "CreateLicense OpenBBolt (Some (\<lambda>i. 0)) 7 3 ''note'' = ((?lic, None), ?s)"
    by (simp add: CreateLicense_def NewKey_zeros CreateLicense_tx_def OpenBBolt_def
        Bucket_Get_def Bucket_Put_def MaxKeySize_def CreateBucketIfNotExists_def Let_def)
  from CreateLicense_result [of 0 OpenBBolt "Some (\<lambda>i. 0)" 7 "''note''" ?key]
  have c1: "CreateLicense OpenBBolt (Some (\<lambda>i. 0)) 7 0 ''note'' =
      ((License_zero, Some LimitMustBePositive), OpenBBolt)"
    by simp
  have "Bucket_Get (licenses ?s) ?key \<noteq> None" by (simp add: Bucket_Get_def)
  with CreateLicense_result [of 5 ?s "Some (\<lambda>i. 0)" 8 "''other''" ?key] NewKey_zeros
  have c3: "CreateLicense ?s (Some (\<lambda>i. 0)) 8 5 ''other'' = ((License_zero, Some KeyCollision), ?s)"
    by simp
  show ?thesis using c1 c3 by (simp add: run)
qed


section \<open>The history of a store\<close>

lemma bound_ids_Get: "bound_ids s key = {d. Bucket_Get (ledger s key) d \<noteq> None}"
  by (auto simp: bound_ids_def Bucket_Get_def map_of_eq_None_iff)

lemma wf_Activate:
  assumes "wf_store s"
  shows "wf_store (snd (Activate s now key serverID))"
proof (cases "OK (fst (fst (Activate s now key serverID)))")
  case False
  with Activate_effect [OF assms, where now = now and key = key and serverID = serverID] show ?thesis
    using assms by (auto simp: split_beta)
next
  case True
  have v: "valid_input key" "valid_serverID serverID"
  proof -
    have "\<not> (TrimSpace key = [] \<or> TrimSpace serverID = [])"
      using True by (auto simp: Activate_invalid_request rejected_def)
    moreover have "\<not> 128 < length (TrimSpace serverID)" if "TrimSpace key \<noteq> []" "TrimSpace serverID \<noteq> []"
      using True that by (auto simp: Activate_too_long rejected_def)
    ultimately show "valid_input key" "valid_serverID serverID"
      by (auto simp: valid_input_def valid_serverID_def not_less)
  qed
  then have t: "TrimSpace key \<noteq> []" "TrimSpace serverID \<noteq> []" "length (TrimSpace serverID) \<le> 128"
    by (simp_all add: valid_input_def valid_serverID_def)
  have ok: "keys_ok (ledger s (TrimSpace key))" using assms by (rule wf_ledger)
  from Activate_paths [OF refl refl t, of s now] True
  obtain sb where "snd (Activate s now key serverID) =
      s\<lparr>usage := bucket_insert (TrimSpace key)
           (bucket_insert (TrimSpace serverID) sb (ledger s (TrimSpace key))) (usage s)\<rparr>"
    by (auto simp: rejected_def)
  then show ?thesis
    using wf_store_usage_update [OF assms keys_ok_insert [OF ok]] by simp
qed

lemma bound_ids_Activate:
  assumes "wf_store s"
  shows "bound_ids (snd (Activate s now key serverID)) k =
         bound_ids s k \<union> admitted_by s (Op_Activate now key serverID) k"
proof (cases "OK (fst (fst (Activate s now key serverID)))")
  case False
  with Activate_effect [OF assms, where now = now and key = key and serverID = serverID] show ?thesis
    by (auto simp: split_beta)
next
  case True
  with Activate_effect [OF assms, where now = now and key = key and serverID = serverID]
  have other: "\<forall>k. k \<noteq> TrimSpace key \<longrightarrow>
        ledger (snd (Activate s now key serverID)) k = ledger s k"
    and rest: "\<forall>d. d \<noteq> TrimSpace serverID \<longrightarrow>
        Bucket_Get (ledger (snd (Activate s now key serverID)) (TrimSpace key)) d =
        Bucket_Get (ledger s (TrimSpace key)) d"
    and this_one: "Bucket_Get (ledger (snd (Activate s now key serverID)) (TrimSpace key))
        (TrimSpace serverID) \<noteq> None"
    by (simp_all add: split_beta)
  show ?thesis
  proof (cases "k = TrimSpace key")
    case False
    with other True show ?thesis by (simp add: bound_ids_def)
  next
    case k: True
    have "bound_ids (snd (Activate s now key serverID)) (TrimSpace key) =
        insert (TrimSpace serverID) (bound_ids s (TrimSpace key))"
    proof -
      have "Bucket_Get (ledger (snd (Activate s now key serverID)) (TrimSpace key)) d \<noteq> None
          \<longleftrightarrow> d = TrimSpace serverID \<or> Bucket_Get (ledger s (TrimSpace key)) d \<noteq> None"
        for d
        using rest this_one by (cases "d = TrimSpace serverID") simp_all
      then show ?thesis unfolding bound_ids_Get by blast
    qed
    with True k show ?thesis by simp
  qed
qed

lemma wf_apply_op: "wf_store s \<Longrightarrow> wf_store (apply_op s x)"
proof (cases x)
  case (Op_CreateLicense rnd now limit nt)
  assume wf: "wf_store s"
  show ?thesis
  proof (cases "0 < limit")
    case False
    with wf CreateLicense_cases [of limit s rnd now nt] show ?thesis
      by (simp add: Op_CreateLicense)
  next
    case True
    show ?thesis
    proof (cases "NewKey rnd")
      case (Inl err)
      with wf True show ?thesis by (simp add: Op_CreateLicense CreateLicense_def)
    next
      case (Inr key)
      with wf True CreateLicense_cases [of limit s rnd now nt key] show ?thesis
        by (cases "Bucket_Get (licenses s) key") (auto simp: Op_CreateLicense split_beta)
    qed
  qed
next
  case (Op_SetLimit key limit)
  assume wf: "wf_store s"
  show ?thesis
  proof (cases "0 < limit")
    case False
    with wf show ?thesis by (simp add: Op_SetLimit SetLimit_def)
  next
    case True
    show ?thesis
    proof (cases "Bucket_Get (licenses s) key")
      case None
      with wf True show ?thesis by (simp add: Op_SetLimit SetLimit_not_found)
    next
      case (Some lic)
      with wf True wf_license [OF wf Some] show ?thesis
        by (simp add: Op_SetLimit SetLimit_found wf_store_licenses_update)
    qed
  qed
next
  case (Op_SetEnabled key enabled)
  assume wf: "wf_store s"
  show ?thesis
  proof (cases "Bucket_Get (licenses s) key")
    case None
    with wf show ?thesis by (simp add: Op_SetEnabled SetEnabled_not_found)
  next
    case (Some lic)
    with wf wf_license [OF wf Some] show ?thesis
      by (simp add: Op_SetEnabled SetEnabled_found wf_store_licenses_update)
  qed
next
  case (Op_Activate now key serverID)
  assume "wf_store s"
  then show ?thesis by (simp add: Op_Activate wf_Activate)
qed

lemma bound_ids_apply_op:
  assumes "wf_store s"
  shows "bound_ids (apply_op s x) k = bound_ids s k \<union> admitted_by s x k"
proof (cases x)
  case (Op_CreateLicense rnd now limit nt)
  have "ledger (snd (CreateLicense s rnd now limit nt)) k = ledger s k"
  proof (cases "0 < limit")
    case False
    with CreateLicense_cases [of limit s rnd now nt] show ?thesis by simp
  next
    case True
    show ?thesis
    proof (cases "NewKey rnd")
      case (Inl err)
      with True show ?thesis by (simp add: CreateLicense_def)
    next
      case (Inr key)
      with True CreateLicense_cases [of limit s rnd now nt key] show ?thesis
        by (cases "Bucket_Get (licenses s) key") (auto simp: split_beta)
    qed
  qed
  then show ?thesis by (simp add: Op_CreateLicense bound_ids_def)
next
  case (Op_SetLimit key limit)
  have "ledger (snd (SetLimit s key limit)) k = ledger s k"
  proof (cases "0 < limit")
    case False
    then show ?thesis by (simp add: SetLimit_def)
  next
    case True
    then show ?thesis
      using assms
      by (cases "Bucket_Get (licenses s) key") (simp_all add: SetLimit_not_found SetLimit_found)
  qed
  then show ?thesis by (simp add: Op_SetLimit bound_ids_def)
next
  case (Op_SetEnabled key enabled)
  have "ledger (snd (SetEnabled s key enabled)) k = ledger s k"
    using assms
    by (cases "Bucket_Get (licenses s) key") (simp_all add: SetEnabled_not_found SetEnabled_found)
  then show ?thesis by (simp add: Op_SetEnabled bound_ids_def)
next
  case (Op_Activate now key serverID)
  with bound_ids_Activate [OF assms] show ?thesis by simp
qed

lemma wf_run: "wf_store s \<Longrightarrow> wf_store (foldl apply_op s xs)"
  by (induction xs arbitrary: s) (simp_all add: wf_apply_op)

lemma bound_ids_run:
  "wf_store s \<Longrightarrow>
   bound_ids (foldl apply_op s xs) k = bound_ids s k \<union> ever_admitted s xs k"
proof (induction xs arbitrary: s)
  case Nil
  then show ?case by simp
next
  case (Cons x xs)
  from Cons.prems have "wf_store (apply_op s x)" by (rule wf_apply_op)
  from Cons.IH [OF this] bound_ids_apply_op [OF Cons.prems, of x k]
  show ?case by (simp add: Un_assoc)
qed


section \<open>Reading a license\<close>

lemma bound_ids_OpenBBolt: "bound_ids OpenBBolt key = {}"
  by (simp add: bound_ids_def ledger_def OpenBBolt_def Bucket_Get_def)

lemma card_bound_ids: "wf_store s \<Longrightarrow> card (bound_ids s key) = length (ledger s key)"
  using keys_ok_length_card [OF wf_ledger, of s key] by (simp add: bound_ids_def)

text \<open>
  C9. Let the store be the one reached from a well-formed store by any list of calls.
  For a key without a license, \<open>GetInfo\<close> returns the empty info and \<open>errNotFound\<close>.
  For a key with a license it returns, without error, the license record, as \<open>Used\<close>
  the number of distinct device identifiers bound at the start or admitted by one of
  the calls (on a new database: the number of those ever admitted), and as \<open>Bindings\<close>
  the bindings of the ledger, each with its key as \<open>ServerID\<close>, in an order in which
  \<open>LastSeen\<close> never increases.
\<close>

theorem GetInfo_result:
  assumes "wf_store s0" and "s = foldl apply_op s0 ops"
  shows "(Bucket_Get (licenses s) key = None \<longrightarrow>
            GetInfo s key = (LicenseInfo_zero, Some errNotFound) \<and>
            class_of errNotFound = NotFound) \<and>
         (Bucket_Get (licenses s) key = Some lic \<longrightarrow>
            (case GetInfo s key of
               (info, err) \<Rightarrow>
                 err = None \<and> License info = lic \<and>
                 LicenseInfo.Used info =
                   int (card (bound_ids s0 key \<union> ever_admitted s0 ops key)) \<and>
                 LicenseInfo.Used info = int (length (Bindings info)) \<and>
                 mset (Bindings info) =
                   mset (map (\<lambda>(k, sb). sb\<lparr>ServerID := k\<rparr>) (ledger s key)) \<and>
                 sorted_wrt (\<lambda>a b. LastSeen b \<le> LastSeen a) (Bindings info)))"
proof (intro conjI impI)
  assume "Bucket_Get (licenses s) key = None"
  then show "GetInfo s key = (LicenseInfo_zero, Some errNotFound)"
    by (simp add: GetInfo_def getLicense_def)
next
  show "class_of errNotFound = NotFound" by simp
next
  assume lic: "Bucket_Get (licenses s) key = Some lic"
  let ?bs = "getBindings s key"
  have wf: "wf_store s" using assms by (simp add: wf_run)
  have run: "GetInfo s key =
      (\<lparr>License = lic, LicenseInfo.Used = int (length ?bs), Bindings = ?bs\<rparr>, None)"
    using lic by (simp add: GetInfo_def getLicense_def Let_def)
  have "length ?bs = length (ledger s key)"
    by (simp add: getBindings_ledger length_sort_Slice)
  also have "\<dots> = card (bound_ids s key)" using wf by (simp add: card_bound_ids)
  also have "bound_ids s key = bound_ids s0 key \<union> ever_admitted s0 ops key"
    using assms by (simp add: bound_ids_run)
  finally have used: "length ?bs = card (bound_ids s0 key \<union> ever_admitted s0 ops key)" .
  have perm: "mset ?bs = mset (map (\<lambda>(k, sb). sb\<lparr>ServerID := k\<rparr>) (ledger s key))"
    by (simp add: getBindings_ledger mset_sort_Slice)
  have sorted: "sorted_wrt (\<lambda>a b. LastSeen b \<le> LastSeen a) ?bs"
    unfolding getBindings_ledger by (rule sorted_sort_Slice)
  show "case GetInfo s key of
      (info, err) \<Rightarrow>
        err = None \<and> License info = lic \<and>
        LicenseInfo.Used info =
          int (card (bound_ids s0 key \<union> ever_admitted s0 ops key)) \<and>
        LicenseInfo.Used info = int (length (Bindings info)) \<and>
        mset (Bindings info) =
          mset (map (\<lambda>(k, sb). sb\<lparr>ServerID := k\<rparr>) (ledger s key)) \<and>
        sorted_wrt (\<lambda>a b. LastSeen b \<le> LastSeen a) (Bindings info)"
    using used perm sorted by (simp add: run)
qed

text \<open>
  The scenario: on the license with limit 2 the devices \<open>B\<close> and \<open>A\<close> are admitted,
  \<open>C\<close> is rejected, and \<open>A\<close> is activated again.
\<close>

theorem GetInfo_result_witness:
  "GetInfo (foldl apply_op (store_K license_K [])
       [Op_Activate 10 ''K'' ''B'', Op_Activate 11 ''K'' ''A'', Op_Activate 12 ''K'' ''C'',
        Op_Activate 13 ''K'' ''A'']) ''K'' =
     (\<lparr>License = license_K, LicenseInfo.Used = 2,
       Bindings = [snd (binding ''A'' 11 13 2), snd (binding ''B'' 10 10 1)]\<rparr>, None) \<and>
   GetInfo (foldl apply_op (store_K license_K [])
       [Op_Activate 10 ''K'' ''B'', Op_Activate 11 ''K'' ''A'', Op_Activate 12 ''K'' ''C'',
        Op_Activate 13 ''K'' ''A'']) ''J'' =
     (LicenseInfo_zero, Some errNotFound) \<and>
   card (bound_ids (store_K license_K []) ''K'' \<union>
         ever_admitted (store_K license_K [])
           [Op_Activate 10 ''K'' ''B'', Op_Activate 11 ''K'' ''A'', Op_Activate 12 ''K'' ''C'',
            Op_Activate 13 ''K'' ''A''] ''K'') = 2"
proof -
  let ?ops = "[Op_Activate 10 ''K'' ''B'', Op_Activate 11 ''K'' ''A'', Op_Activate 12 ''K'' ''C'',
      Op_Activate 13 ''K'' ''A'']"
  let ?init = "store_K license_K []"
  let ?s = "store_K license_K [binding ''A'' 11 13 2, binding ''B'' 10 10 1]"
  have wf: "wf_store ?init"
    by (simp add: wf_store_def store_K_def license_K_def keys_ok_def MaxKeySize_def
        binding_def)
  have run: "foldl apply_op ?init ?ops = ?s"
    by (simp add: Activate_eval)
  have getK: "Bucket_Get (licenses ?s) ''K'' = Some license_K"
    and getJ: "Bucket_Get (licenses ?s) ''J'' = None"
    by (simp_all add: store_K_def Bucket_Get_def)
  have info: "GetInfo ?s ''K'' =
      (\<lparr>License = license_K, LicenseInfo.Used = 2,
        Bindings = [snd (binding ''A'' 11 13 2), snd (binding ''B'' 10 10 1)]\<rparr>, None)"
    by (simp add: GetInfo_def getLicense_def getK getBindings_def Bucket_Get_def store_K_def
        ForEach_def sort_Slice_def binding_def Let_def)
  from GetInfo_result [OF wf run [symmetric], of "''J''" license_K] getJ
  have c2: "GetInfo ?s ''J'' = (LicenseInfo_zero, Some errNotFound)" by simp
  from GetInfo_result [OF wf run [symmetric], of "''K''" license_K] getK
  have c3: "card (bound_ids ?init ''K'' \<union> ever_admitted ?init ?ops ''K'') = 2"
    by (simp add: info)
  show ?thesis unfolding run using info c2 c3 by (intro conjI)
qed


section \<open>Runs of activations up to the limit\<close>

lemma Activate_seq_append:
  "Activate_seq s key (xs @ ys) =
     (case Activate_seq s key xs of
        (rs, s') \<Rightarrow> (case Activate_seq s' key ys of (rs', s'') \<Rightarrow> (rs @ rs', s'')))"
  by (induction xs arbitrary: s) (auto split: prod.splits)

text \<open>
  A run of distinct new devices for which the license has room: each is admitted, the
  count going up by one each time.
\<close>

lemma Activate_seq_admits:
  assumes "valid_input key" "Bucket_Get (licenses s) (TrimSpace key) = Some lic" "Enabled lic"
    and "list_all (\<lambda>c. valid_serverID (snd c)) calls"
    and "distinct (map (\<lambda>c. TrimSpace (snd c)) calls)"
    and "\<forall>c \<in> set calls. Bucket_Get (ledger s (TrimSpace key)) (TrimSpace (snd c)) = None"
    and "int (length (ledger s (TrimSpace key))) + int (length calls) \<le> License.Limit lic"
  shows "fst (Activate_seq s key calls) =
           map (\<lambda>i. (admitted (int (length (ledger s (TrimSpace key))) + int i + 1)
                        (License.Limit lic) True, None)) [0..<length calls] \<and>
         licenses (snd (Activate_seq s key calls)) = licenses s \<and>
         length (ledger (snd (Activate_seq s key calls)) (TrimSpace key)) =
           length (ledger s (TrimSpace key)) + length calls \<and>
         (\<forall>d. Bucket_Get (ledger (snd (Activate_seq s key calls)) (TrimSpace key)) d = None
            \<longleftrightarrow> Bucket_Get (ledger s (TrimSpace key)) d = None \<and>
                d \<notin> (\<lambda>c. TrimSpace (snd c)) ` set calls)"
  using assms(2,4-7)
proof (induction calls arbitrary: s)
  case Nil
  then show ?case by simp
next
  case (Cons c calls)
  obtain now serverID where c: "c = (now, serverID)" by (cases c)
  let ?k = "TrimSpace key" and ?d = "TrimSpace serverID"
  let ?sb = "\<lparr>ServerID = ?d, FirstSeen = now, LastSeen = now, SeenCount = 1\<rparr>"
  let ?u = "bucket_insert ?d ?sb (ledger s ?k)"
  let ?s1 = "s\<lparr>usage := bucket_insert ?k ?u (usage s)\<rparr>"
  from Cons.prems have v: "valid_serverID serverID"
    and unbound: "Bucket_Get (ledger s ?k) ?d = None"
    and room: "int (length (ledger s ?k)) < License.Limit lic"
    by (simp_all add: c)
  have step: "Activate s now key serverID =
      ((admitted (int (length (ledger s ?k)) + 1) (License.Limit lic) True, None), ?s1)"
    using assms(1) v Cons.prems(1) assms(3) unbound room by (rule Activate_new)
  have led: "ledger ?s1 ?k = ?u" by (rule ledger_after_write)
  have len: "length ?u = Suc (length (ledger s ?k))"
    using unbound by (rule length_Put_new)
  have get: "Bucket_Get ?u d = (if d = ?d then Some ?sb else Bucket_Get (ledger s ?k) d)" for d
    by (rule Bucket_Get_insert)
  have IH: "fst (Activate_seq ?s1 key calls) =
           map (\<lambda>i. (admitted (int (length (ledger ?s1 ?k)) + int i + 1)
                        (License.Limit lic) True, None)) [0..<length calls] \<and>
         licenses (snd (Activate_seq ?s1 key calls)) = licenses ?s1 \<and>
         length (ledger (snd (Activate_seq ?s1 key calls)) ?k) =
           length (ledger ?s1 ?k) + length calls \<and>
         (\<forall>d. Bucket_Get (ledger (snd (Activate_seq ?s1 key calls)) ?k) d = None
            \<longleftrightarrow> Bucket_Get (ledger ?s1 ?k) d = None \<and>
                d \<notin> (\<lambda>c. TrimSpace (snd c)) ` set calls)"
  proof (rule Cons.IH)
    show "Bucket_Get (licenses ?s1) ?k = Some lic" using Cons.prems(1) by simp
    show "list_all (\<lambda>c. valid_serverID (snd c)) calls" using Cons.prems(2) by simp
    show "distinct (map (\<lambda>c. TrimSpace (snd c)) calls)" using Cons.prems(3) by simp
    show "\<forall>c \<in> set calls. Bucket_Get (ledger ?s1 ?k) (TrimSpace (snd c)) = None"
    proof
      fix c' assume c': "c' \<in> set calls"
      with Cons.prems(3) have "TrimSpace (snd c') \<noteq> ?d" by (force simp: c)
      moreover from c' Cons.prems(4)
      have "Bucket_Get (ledger s ?k) (TrimSpace (snd c')) = None" by simp
      ultimately show "Bucket_Get (ledger ?s1 ?k) (TrimSpace (snd c')) = None"
        by (simp add: led get)
    qed
    show "int (length (ledger ?s1 ?k)) + int (length calls) \<le> License.Limit lic"
      using Cons.prems(5) by (simp add: led len)
  qed
  have shift: "map (\<lambda>i. (admitted (int (length (ledger s ?k)) + int i + 1)
                        (License.Limit lic) True, None)) [0..<length (c # calls)] =
      (admitted (int (length (ledger s ?k)) + 1) (License.Limit lic) True, None) #
      map (\<lambda>i. (admitted (int (Suc (length (ledger s ?k))) + int i + 1)
                        (License.Limit lic) True, None)) [0..<length calls]"
    by (simp add: upt_conv_Cons map_Suc_upt [symmetric] del: upt_Suc)
  show ?case
    using IH unfolding shift
    by (auto simp: c step led len get split_beta)
qed


text \<open>
  A run of new devices for a license whose ledger is full: each is rejected, and the
  state stays as it was.
\<close>

lemma Activate_seq_rejects:
  assumes "valid_input key" "Bucket_Get (licenses s) (TrimSpace key) = Some lic" "Enabled lic"
    and "0 < License.Limit lic"
    and "License.Limit lic \<le> int (length (ledger s (TrimSpace key)))"
    and "list_all (\<lambda>c. valid_serverID (snd c)) calls"
    and "\<forall>c \<in> set calls. Bucket_Get (ledger s (TrimSpace key)) (TrimSpace (snd c)) = None"
  shows "Activate_seq s key calls =
           (map (\<lambda>c. (rejected ''limit_reached'' (int (length (ledger s (TrimSpace key))))
                         (License.Limit lic), None)) calls, s)"
  using assms(6,7)
proof (induction calls)
  case Nil
  then show ?case by simp
next
  case (Cons c calls)
  obtain now serverID where c: "c = (now, serverID)" by (cases c)
  from Cons.prems have "valid_serverID serverID"
    and "Bucket_Get (ledger s (TrimSpace key)) (TrimSpace serverID) = None"
    by (simp_all add: c)
  with assms(1-5) have "Activate s now key serverID =
      ((rejected ''limit_reached'' (int (length (ledger s (TrimSpace key))))
          (License.Limit lic), None), s)"
    by (intro Activate_limit_reached)
  moreover from Cons have "Activate_seq s key calls =
      (map (\<lambda>c. (rejected ''limit_reached'' (int (length (ledger s (TrimSpace key))))
                    (License.Limit lic), None)) calls, s)"
    by simp
  ultimately show ?case by (simp add: c)
qed

text \<open>
  C1. A license is present and enabled, has limit \<open>L\<close> and no binding yet. \<open>L\<close> calls
  of \<open>Activate\<close> with valid, pairwise distinct device identifiers are made in turn.
  Then the \<open>i\<close>-th call returns \<open>ok\<close> with \<open>newly_bound\<close>, \<open>used = i\<close> and the limit,
  for \<open>i\<close> from 1 to \<open>L\<close>; afterwards the ledger has \<open>L\<close> bindings, and a call with one
  more distinct device identifier returns \<open>limit_reached\<close> with \<open>used = L\<close> and the
  limit, and leaves the state, hence the ledger, as it was.
\<close>

theorem first_L_devices_admitted_next_rejected:
  assumes "wf_store s" "valid_input key"
    and "Bucket_Get (licenses s) (TrimSpace key) = Some lic" "Enabled lic"
    and "ledger s (TrimSpace key) = []"
    and "License.Limit lic = int (length calls)"
    and "list_all (\<lambda>c. valid_serverID (snd c)) calls" "valid_serverID extra"
    and "distinct (map (\<lambda>c. TrimSpace (snd c)) ((now, extra) # calls))"
  shows "case Activate_seq s key calls of
           (rs, s') \<Rightarrow>
             rs = map (\<lambda>i. (admitted (int i + 1) (License.Limit lic) True, None))
                    [0..<length calls] \<and>
             length (ledger s' (TrimSpace key)) = length calls \<and>
             Activate s' now key extra =
               ((rejected ''limit_reached'' (License.Limit lic) (License.Limit lic), None), s')"
proof -
  let ?k = "TrimSpace key"
  let ?s' = "snd (Activate_seq s key calls)"
  have unbound: "\<forall>c \<in> set calls. Bucket_Get (ledger s ?k) (TrimSpace (snd c)) = None"
    by (simp add: assms(5) Bucket_Get_def)
  have room: "int (length (ledger s ?k)) + int (length calls) \<le> License.Limit lic"
    by (simp add: assms(5,6))
  from assms(9) have d: "distinct (map (\<lambda>c. TrimSpace (snd c)) calls)"
    and new: "TrimSpace extra \<notin> (\<lambda>c. TrimSpace (snd c)) ` set calls"
    by simp_all
  note run = Activate_seq_admits [OF assms(2,3,4,7) d unbound room]
  from run have rs: "fst (Activate_seq s key calls) =
      map (\<lambda>i. (admitted (int i + 1) (License.Limit lic) True, None)) [0..<length calls]"
    by (simp add: assms(5))
  from run have lic': "Bucket_Get (licenses ?s') ?k = Some lic"
    by (simp add: assms(3))
  from run have len: "length (ledger ?s' ?k) = length calls"
    by (simp add: assms(5))
  from run new have free: "Bucket_Get (ledger ?s' ?k) (TrimSpace extra) = None"
    by (simp add: assms(5) Bucket_Get_def)
  have pos: "0 < License.Limit lic" using wf_license(4) [OF assms(1,3)] .
  have full: "License.Limit lic \<le> int (length (ledger ?s' ?k))"
    by (simp add: len assms(6))
  have "Activate ?s' now key extra =
      ((rejected ''limit_reached'' (int (length (ledger ?s' ?k))) (License.Limit lic), None), ?s')"
    using assms(2,8) lic' assms(4) free full pos by (rule Activate_limit_reached)
  then have last: "Activate ?s' now key extra =
      ((rejected ''limit_reached'' (License.Limit lic) (License.Limit lic), None), ?s')"
    by (simp add: len assms(6))
  show ?thesis using rs len last by (simp add: split_beta)
qed

theorem first_L_devices_admitted_next_rejected_witness:
  "Activate_seq (store_K license_K []) ''K'' [(10, ''A''), (11, ''B'')] =
     ([(admitted 1 2 True, None), (admitted 2 2 True, None)],
      store_K license_K [binding ''A'' 10 10 1, binding ''B'' 11 11 1]) \<and>
   Activate (store_K license_K [binding ''A'' 10 10 1, binding ''B'' 11 11 1]) 12 ''K'' ''C'' =
     ((rejected ''limit_reached'' 2 2, None),
      store_K license_K [binding ''A'' 10 10 1, binding ''B'' 11 11 1])"
proof -
  let ?init = "store_K license_K []"
  let ?calls = "[(10, ''A''), (11, ''B'')] :: (time \<times> string) list"
  have wf: "wf_store ?init"
    by (simp add: wf_store_def store_K_def license_K_def keys_ok_def MaxKeySize_def)
  have en: "Enabled license_K" and lim: "License.Limit license_K = int (length ?calls)"
    by (simp_all add: license_K_def)
  have fresh: "ledger ?init (TrimSpace ''K'') = []" by (rule ledger_store_K)
  have valid: "list_all (\<lambda>c. valid_serverID (snd c)) ?calls"
    by (simp add: examples_valid)
  have dist: "distinct (map (\<lambda>c. TrimSpace (snd c)) ((12, ''C'') # ?calls))"
    by (simp add: examples_trimmed)
  have run: "Activate_seq ?init ''K'' ?calls =
      ([(admitted 1 2 True, None), (admitted 2 2 True, None)],
       store_K license_K [binding ''A'' 10 10 1, binding ''B'' 11 11 1])"
    by (simp add: Activate_def Activate_tx_def Activate_put_def getLicense_def Bucket_Get_def
        Bucket_Put_def countKeys_length store_K_def license_K_def binding_def MaxKeySize_def
        examples_trimmed Let_def admitted_def)
  have two: "License.Limit license_K = 2" by (simp add: license_K_def)
  from first_L_devices_admitted_next_rejected
    [OF wf examples_valid(1) get_store_K en fresh lim valid examples_valid(4) dist]
  have "Activate (store_K license_K [binding ''A'' 10 10 1, binding ''B'' 11 11 1]) 12 ''K'' ''C'' =
     ((rejected ''limit_reached'' 2 2, None),
      store_K license_K [binding ''A'' 10 10 1, binding ''B'' 11 11 1])"
    unfolding run two by simp
  with run show ?thesis by (intro conjI)
qed


end
